theory Spec2Isabelle
  imports Complex_Main
begin

section \<open>LogitTracker (outlines/processors/tracking.py)\<close>

text \<open>
  A shallow embedding of the class \<^verbatim>\<open>LogitTracker\<close>. The tracker is a record of its
  attributes; every method takes the tracker and returns its outcome together with the
  tracker as the method leaves it, so that the state after a raised exception can be
  stated as well. An exception is the \<open>Inl\<close> branch of a sum.

  Scores are values of an arbitrary linearly ordered type \<open>'v\<close> (floats without NaN,
  with or without infinities). A tensor of shape \<open>(rows, vocab)\<close> is the list of its
  rows, a one-dimensional array is a list. Token ids are Python integers.
\<close>

subsection \<open>Exceptions\<close>

datatype batch_dim = ScoreBatch | TokenHistory

datatype error =
    InvalidBatchSize batch_dim nat
      \<comment> \<open>the \<^verbatim>\<open>ValueError\<close> of \<^verbatim>\<open>process_logits\<close>, with the offending size\<close>
  | IndexError
      \<comment> \<open>Python or numpy index out of range\<close>
  | NoTokenizerAvailable
      \<comment> \<open>the \<^verbatim>\<open>AttributeError\<close> of a missing tokenizer\<close>
  | ShapeError
      \<comment> \<open>the \<^verbatim>\<open>ValueError\<close> of numpy on arrays whose shapes do not fit\<close>
  | DelegateError
      \<comment> \<open>any exception raised inside the wrapped processor or the tokenizer\<close>

subsection \<open>Collaborators and the tracker\<close>

text \<open>\<^verbatim>\<open>Tokenizer.decode\<close>: a list of token ids to a list of strings; it may raise.\<close>

type_synonym tokenizer = "int list \<Rightarrow> error + string list"

text \<open>
  The wrapped processor: its \<^verbatim>\<open>process_logits\<close>, which may raise, and its
  \<^verbatim>\<open>tokenizer\<close> attribute (\<open>None\<close> when \<^verbatim>\<open>hasattr(processor, "tokenizer")\<close> is false).
\<close>

record 'v logits_processor =
  lp_process_logits :: "int list list \<Rightarrow> 'v list list \<Rightarrow> error + 'v list list"
  lp_tokenizer :: "tokenizer option"

record 'v tracker =
  processor :: "'v logits_processor option"
  unstructured_logits :: "'v list list"
  structured_logits :: "'v list list"
  vocab_tokens :: "string list option"
  chosen_tokens :: "int list"
  started :: bool
  tokenizer :: "tokenizer option"

text \<open>\<^verbatim>\<open>__init__\<close> (lines 57-83).\<close>

definition init :: "'v logits_processor option \<Rightarrow> 'v tracker" where
  "init p =
     \<lparr> processor = p,
       unstructured_logits = [],
       structured_logits = [],
       vocab_tokens = None,
       chosen_tokens = [],
       started = False,
       tokenizer = (case p of None \<Rightarrow> None | Some d \<Rightarrow> lp_tokenizer d) \<rparr>"

subsection \<open>process_logits (lines 85-147)\<close>

text \<open>
  Lines 139-147: the wrapped processor is called, if there is one, and the first row of
  what it returns is stored; without one the first row of the raw scores is stored again.
  \<open>row\<close> is \<^verbatim>\<open>logits[0]\<close>. \<^verbatim>\<open>processed[0]\<close> raises when the processor returns no row.
\<close>

definition apply_processor ::
  "'v tracker \<Rightarrow> int list list \<Rightarrow> 'v list list \<Rightarrow> 'v list
     \<Rightarrow> (error + 'v list list) \<times> 'v tracker" where
  "apply_processor self input_ids logits row =
     (case processor self of
        Some d \<Rightarrow>
          (case lp_process_logits d input_ids logits of
             Inl e \<Rightarrow> (Inl e, self)
           | Inr processed \<Rightarrow>
               (case processed of
                  [] \<Rightarrow> (Inl IndexError, self)
                | prow # _ \<Rightarrow>
                    (Inr processed,
                     self\<lparr>structured_logits := structured_logits self @ [prow]\<rparr>)))
      | None \<Rightarrow>
          (Inr logits, self\<lparr>structured_logits := structured_logits self @ [row]\<rparr>))"

text \<open>
  Lines 114-137. The two guards compare with \<open>1\<close> by \<open>>\<close>. \<^verbatim>\<open>logits[0]\<close> is evaluated
  before the append of line 127, so an empty score batch raises with nothing stored.
  In line 130 \<^verbatim>\<open>input_ids[0]\<close> is only evaluated when \<^verbatim>\<open>_started\<close> is true
  (\<^verbatim>\<open>and\<close> short-circuits), and by then the raw row is already stored.
\<close>

definition process_logits ::
  "'v tracker \<Rightarrow> int list list \<Rightarrow> 'v list list \<Rightarrow> (error + 'v list list) \<times> 'v tracker" where
  "process_logits self input_ids logits =
     (if length logits > 1 then (Inl (InvalidBatchSize ScoreBatch (length logits)), self)
      else if length input_ids > 1
        then (Inl (InvalidBatchSize TokenHistory (length input_ids)), self)
      else
        (case logits of
           [] \<Rightarrow> (Inl IndexError, self)
         | row # _ \<Rightarrow>
             (let s1 = self\<lparr>unstructured_logits := unstructured_logits self @ [row]\<rparr> in
              if started s1 then
                (case input_ids of
                   [] \<Rightarrow> (Inl IndexError, s1)
                 | ids # _ \<Rightarrow>
                     if length ids > 1
                     then apply_processor
                            (s1\<lparr>chosen_tokens := chosen_tokens s1 @ [last ids]\<rparr>)
                            input_ids logits row
                     else apply_processor (s1\<lparr>started := True\<rparr>) input_ids logits row)
              else apply_processor (s1\<lparr>started := True\<rparr>) input_ids logits row)))"

text \<open>
  A generation loop: the calls one after the other, each on the tracker the previous one
  left (whether or not it raised). The outcomes are collected in call order.
\<close>

fun process_calls ::
  "'v tracker \<Rightarrow> (int list list \<times> 'v list list) list
     \<Rightarrow> (error + 'v list list) list \<times> 'v tracker" where
  "process_calls self [] = ([], self)"
| "process_calls self ((input_ids, logits) # calls) =
     (case process_logits self input_ids logits of
        (r, s1) \<Rightarrow>
          (case process_calls s1 calls of (rs, s2) \<Rightarrow> (r # rs, s2)))"

text \<open>
  A valid single-sequence call: one token history, one row of scores, and a wrapped
  processor (if any) that returns at least one row.
\<close>

definition valid_call :: "'v tracker \<Rightarrow> int list list \<times> 'v list list \<Rightarrow> bool" where
  "valid_call self c =
     (case c of (input_ids, logits) \<Rightarrow>
        length input_ids = 1 \<and> length logits = 1 \<and>
        (case processor self of
           None \<Rightarrow> True
         | Some d \<Rightarrow>
             (case lp_process_logits d input_ids logits of
                Inl _ \<Rightarrow> False
              | Inr processed \<Rightarrow> processed \<noteq> [])))"

subsection \<open>clear (lines 321-325)\<close>

definition clear :: "'v tracker \<Rightarrow> 'v tracker" where
  "clear self =
     self\<lparr>unstructured_logits := [], structured_logits := [], chosen_tokens := []\<rparr>"

subsection \<open>Python and numpy primitives\<close>

text \<open>
  \<^verbatim>\<open>xs[i]\<close>: a negative index counts from the end, an index out of range raises.
\<close>

definition py_index :: "'a list \<Rightarrow> int \<Rightarrow> error + 'a" where
  "py_index xs i =
     (if 0 \<le> i \<and> i < int (length xs) then Inr (xs ! nat i)
      else if i < 0 \<and> - int (length xs) \<le> i then Inr (xs ! nat (int (length xs) + i))
      else Inl IndexError)"

text \<open>
  \<^verbatim>\<open>xs[:i]\<close> and \<^verbatim>\<open>xs[i:]\<close>: a negative bound counts from the end, and bounds outside
  the list are clamped. \<^verbatim>\<open>xs[-0:]\<close> is \<^verbatim>\<open>xs[0:]\<close>, the whole list.
\<close>

definition py_slice_to :: "'a list \<Rightarrow> int \<Rightarrow> 'a list" where
  "py_slice_to xs i =
     (if i < 0 then take (nat (int (length xs) + i)) xs else take (nat i) xs)"

definition py_slice_from :: "'a list \<Rightarrow> int \<Rightarrow> 'a list" where
  "py_slice_from xs i =
     (if i < 0 then drop (nat (int (length xs) + i)) xs else drop (nat i) xs)"

text \<open>
  \<^verbatim>\<open>np.column_stack\<close> on one-dimensional arrays: it raises on an empty list and on
  arrays of different lengths. The matrix it returns is kept as the list of its columns:
  \<^verbatim>\<open>m.shape[1]\<close> is the length of that list and \<^verbatim>\<open>m[:, pos]\<close> is \<open>py_index m pos\<close>.
\<close>

definition column_stack :: "'v list list \<Rightarrow> error + 'v list list" where
  "column_stack arrays =
     (case arrays of
        [] \<Rightarrow> Inl ShapeError
      | a # as \<Rightarrow>
          if list_all (\<lambda>b. length b = length a) as then Inr arrays else Inl ShapeError)"

text \<open>
  \<^verbatim>\<open>np.maximum\<close> on one-dimensional arrays: elementwise on equal lengths, an array
  of length one is broadcast, any other pair of lengths raises.
\<close>

definition np_maximum :: "('v::linorder) list \<Rightarrow> 'v list \<Rightarrow> error + 'v list" where
  "np_maximum u s =
     (if length u = length s then Inr (map2 max u s)
      else if length u = 1 then Inr (map (max (hd u)) s)
      else if length s = 1 then Inr (map (\<lambda>x. max x (hd s)) u)
      else Inl ShapeError)"

text \<open>
  \<^verbatim>\<open>np.argsort\<close>, called with its default sort, is a parameter of the model: numpy
  returns the indices of the array in ascending order of their values and promises
  nothing about the order of indices of equal values. \<open>is_argsort\<close> is that contract:
  on every array the result holds each index once and the values are ascending along it.
\<close>

definition is_argsort :: "(('v::linorder) list \<Rightarrow> nat list) \<Rightarrow> bool" where
  "is_argsort argsort =
     (\<forall>xs. distinct (argsort xs) \<and> set (argsort xs) = {..<length xs} \<and>
           sorted (map (\<lambda>i. xs ! i) (argsort xs)))"

text \<open>
  One function that meets the contract, to run the model on concrete arrays: the stable
  sort, which leaves indices of equal values in ascending order.
\<close>

definition stable_argsort :: "('v::linorder) list \<Rightarrow> nat list" where
  "stable_argsort xs = sort_key (\<lambda>i. xs ! i) [0..<length xs]"

text \<open>
  Another one: the stable sort of the indices taken from the last to the first, which
  leaves indices of equal values in descending order.
\<close>

definition reverse_stable_argsort :: "('v::linorder) list \<Rightarrow> nat list" where
  "reverse_stable_argsort xs = sort_key (\<lambda>i. xs ! i) (rev [0..<length xs])"

subsection \<open>Vocabulary table (lines 296-319)\<close>

text \<open>
  The comprehension \<^verbatim>\<open>[self.tokenizer.decode([i])[0] for i in range(vocab_size)]\<close>:
  each index is decoded alone and the first string is kept; it raises when the tokenizer
  raises or returns no string.
\<close>

fun decode_each :: "tokenizer \<Rightarrow> int list \<Rightarrow> error + string list" where
  "decode_each tok [] = Inr []"
| "decode_each tok (i # is) =
     (case tok [i] of
        Inl e \<Rightarrow> Inl e
      | Inr ss \<Rightarrow>
          (case ss of
             [] \<Rightarrow> Inl IndexError
           | s # _ \<Rightarrow>
               (case decode_each tok is of
                  Inl e \<Rightarrow> Inl e
                | Inr rest \<Rightarrow> Inr (s # rest))))"

definition get_vocab_mapping :: "'v tracker \<Rightarrow> (error + string list) \<times> 'v tracker" where
  "get_vocab_mapping self =
     (case tokenizer self of
        None \<Rightarrow> (Inl NoTokenizerAvailable, self)
      | Some tok \<Rightarrow>
          (case vocab_tokens self of
             Some vt \<Rightarrow> (Inr vt, self)
           | None \<Rightarrow>
               (case unstructured_logits self of
                  [] \<Rightarrow> (Inl IndexError, self)
                | v # _ \<Rightarrow>
                    (case decode_each tok (map int [0..<length v]) of
                       Inl e \<Rightarrow> (Inl e, self)
                     | Inr vt \<Rightarrow> (Inr vt, self\<lparr>vocab_tokens := Some vt\<rparr>)))))"

subsection \<open>Sequence reconstruction (lines 425-461)\<close>

text \<open>
  The tokenizer of the wrapped processor is preferred to the tracker's own (lines
  451-454); decoding with no tokenizer at all is the \<^verbatim>\<open>AttributeError\<close> of
  \<^verbatim>\<open>None.decode\<close>. The empty log returns before any tokenizer is looked at.
\<close>

definition sequence_tokenizer :: "'v tracker \<Rightarrow> tokenizer option" where
  "sequence_tokenizer self =
     (case processor self of
        None \<Rightarrow> tokenizer self
      | Some d \<Rightarrow>
          (case lp_tokenizer d of None \<Rightarrow> tokenizer self | Some t \<Rightarrow> Some t))"

definition sequence_up_to :: "'v tracker \<Rightarrow> int option \<Rightarrow> error + string" where
  "sequence_up_to self pos =
     (if chosen_tokens self = [] then Inr []
      else
        (case sequence_tokenizer self of
           None \<Rightarrow> Inl NoTokenizerAvailable
         | Some tok \<Rightarrow>
             (let end_pos = (case pos of None \<Rightarrow> int (length (chosen_tokens self))
                                       | Some p \<Rightarrow> p);
                  tokens_to_decode = py_slice_to (chosen_tokens self) end_pos
              in case tok tokens_to_decode of
                   Inl e \<Rightarrow> Inl e
                 | Inr ss \<Rightarrow> Inr (concat ss))))"

subsection \<open>Probability and logit views (lines 149-193)\<close>

record 'v views =
  unstructured :: "'v list list"
  structured :: "'v list list"

text \<open>
  \<^verbatim>\<open>torch.softmax\<close> is a parameter of the model: \<open>softmax\<close> maps a score vector to
  its probability vector.
\<close>

definition get_probabilities ::
  "('v list \<Rightarrow> 'v list) \<Rightarrow> 'v tracker \<Rightarrow> error + 'v views" where
  "get_probabilities softmax self =
     (case column_stack (map softmax (unstructured_logits self)) of
        Inl e \<Rightarrow> Inl e
      | Inr u \<Rightarrow>
          (case column_stack (map softmax (structured_logits self)) of
             Inl e \<Rightarrow> Inl e
           | Inr s \<Rightarrow> Inr \<lparr>unstructured = u, structured = s\<rparr>))"

definition get_logits :: "'v tracker \<Rightarrow> error + 'v views" where
  "get_logits self =
     (case column_stack (unstructured_logits self) of
        Inl e \<Rightarrow> Inl e
      | Inr u \<Rightarrow>
          (case column_stack (structured_logits self) of
             Inl e \<Rightarrow> Inl e
           | Inr s \<Rightarrow> Inr \<lparr>unstructured = u, structured = s\<rparr>))"

subsection \<open>Top-token query (lines 195-294)\<close>

datatype positions_arg = AllPositions | OnePosition int | Positions "int list"

record 'v token_info =
  token :: string
  unstructured_prob :: 'v
  structured_prob :: 'v
  is_chosen :: bool
  unstructured_logit :: "'v option"
  structured_logit :: "'v option"

record 'v report =
  position :: int
  text_so_far :: string
  tokens :: "'v token_info list"

text \<open>
  Lines 259-260: \<^verbatim>\<open>k_actual = min(k, len(max_probs))\<close> and
  \<^verbatim>\<open>np.argsort(max_probs)[-k_actual:][::-1]\<close>.
\<close>

definition top_indices ::
  "(('v::linorder) list \<Rightarrow> nat list) \<Rightarrow> 'v list \<Rightarrow> int \<Rightarrow> nat list" where
  "top_indices argsort max_probs k =
     (let k_actual = min k (int (length max_probs))
      in rev (py_slice_from (argsort max_probs) (- k_actual)))"

text \<open>
  Lines 263-267: the text the next chosen token adds, or the empty string at the last
  recorded position.
\<close>

definition next_token_at :: "'v tracker \<Rightarrow> int \<Rightarrow> string \<Rightarrow> error + string" where
  "next_token_at self pos text =
     (if pos < int (length (structured_logits self)) - 1
      then (case sequence_up_to self (Some (pos + 1)) of
              Inl e \<Rightarrow> Inl e
            | Inr t \<Rightarrow> Inr (drop (length text) t))
      else Inr [])"

text \<open>
  Lines 271-288, one pass of the inner loop: the entry of vocabulary index \<open>idx\<close>.
  \<open>lgs\<close> holds the two logit columns when \<^verbatim>\<open>include_logits\<close> is set.
\<close>

definition token_info_at ::
  "string list \<Rightarrow> 'v list \<Rightarrow> 'v list \<Rightarrow> ('v list \<times> 'v list) option \<Rightarrow> string \<Rightarrow> nat
     \<Rightarrow> error + 'v token_info" where
  "token_info_at vocab u_probs s_probs lgs next_token idx =
     (case py_index vocab (int idx) of
        Inl e \<Rightarrow> Inl e
      | Inr tk \<Rightarrow>
     (case py_index u_probs (int idx) of
        Inl e \<Rightarrow> Inl e
      | Inr up \<Rightarrow>
     (case py_index s_probs (int idx) of
        Inl e \<Rightarrow> Inl e
      | Inr sp \<Rightarrow>
     (case lgs of
        None \<Rightarrow>
          Inr \<lparr>token = tk, unstructured_prob = up, structured_prob = sp,
               is_chosen = (tk = next_token),
               unstructured_logit = None, structured_logit = None\<rparr>
      | Some (u_logits, s_logits) \<Rightarrow>
          (case py_index u_logits (int idx) of
             Inl e \<Rightarrow> Inl e
           | Inr ul \<Rightarrow>
          (case py_index s_logits (int idx) of
             Inl e \<Rightarrow> Inl e
           | Inr sl \<Rightarrow>
               Inr \<lparr>token = tk, unstructured_prob = up, structured_prob = sp,
                    is_chosen = (tk = next_token),
                    unstructured_logit = Some ul, structured_logit = Some sl\<rparr>))))))"

text \<open>A \<^verbatim>\<open>for\<close> loop that appends the outcome of each pass and stops at an exception.\<close>

fun collect :: "('a \<Rightarrow> error + 'b) \<Rightarrow> 'a list \<Rightarrow> error + 'b list" where
  "collect f [] = Inr []"
| "collect f (x # xs) =
     (case f x of
        Inl e \<Rightarrow> Inl e
      | Inr y \<Rightarrow> (case collect f xs of Inl e \<Rightarrow> Inl e | Inr ys \<Rightarrow> Inr (y # ys)))"

text \<open>Lines 252-254: the two logit columns, when logits are asked for.\<close>

definition logit_columns ::
  "'v views option \<Rightarrow> int \<Rightarrow> error + ('v list \<times> 'v list) option" where
  "logit_columns logits pos =
     (case logits of
        None \<Rightarrow> Inr None
      | Some lg \<Rightarrow>
          (case py_index (unstructured lg) pos of
             Inl e \<Rightarrow> Inl e
           | Inr u_logits \<Rightarrow>
               (case py_index (structured lg) pos of
                  Inl e \<Rightarrow> Inl e
                | Inr s_logits \<Rightarrow> Inr (Some (u_logits, s_logits)))))"

text \<open>Lines 245-292: the report of one position that was not skipped.\<close>

definition report_at ::
  "(('v::linorder) list \<Rightarrow> nat list) \<Rightarrow> 'v tracker \<Rightarrow> 'v views \<Rightarrow> 'v views option
     \<Rightarrow> string list \<Rightarrow> int \<Rightarrow> int \<Rightarrow> error + 'v report" where
  "report_at argsort self probs logits vocab k pos =
     (case sequence_up_to self (Some pos) of
        Inl e \<Rightarrow> Inl e
      | Inr text \<Rightarrow>
     (case py_index (unstructured probs) pos of
        Inl e \<Rightarrow> Inl e
      | Inr u_probs \<Rightarrow>
     (case py_index (structured probs) pos of
        Inl e \<Rightarrow> Inl e
      | Inr s_probs \<Rightarrow>
     (case logit_columns logits pos of
        Inl e \<Rightarrow> Inl e
      | Inr lgs \<Rightarrow>
     (case np_maximum u_probs s_probs of
        Inl e \<Rightarrow> Inl e
      | Inr max_probs \<Rightarrow>
     (case next_token_at self pos text of
        Inl e \<Rightarrow> Inl e
      | Inr next_token \<Rightarrow>
     (case collect (token_info_at vocab u_probs s_probs lgs next_token)
             (top_indices argsort max_probs k) of
        Inl e \<Rightarrow> Inl e
      | Inr tks \<Rightarrow>
          Inr \<lparr>position = pos, text_so_far = text, tokens = tks\<rparr>)))))))"

text \<open>Lines 241-292: the loop over the positions; line 242 skips a position.\<close>

fun reports ::
  "(('v::linorder) list \<Rightarrow> nat list) \<Rightarrow> 'v tracker \<Rightarrow> 'v views \<Rightarrow> 'v views option
     \<Rightarrow> string list \<Rightarrow> int \<Rightarrow> int list \<Rightarrow> error + 'v report list" where
  "reports argsort self probs logits vocab k [] = Inr []"
| "reports argsort self probs logits vocab k (pos # rest) =
     (if pos \<ge> int (length (unstructured_logits self))
      then reports argsort self probs logits vocab k rest
      else
        (case report_at argsort self probs logits vocab k pos of
           Inl e \<Rightarrow> Inl e
         | Inr r \<Rightarrow>
             (case reports argsort self probs logits vocab k rest of
                Inl e \<Rightarrow> Inl e
              | Inr rs \<Rightarrow> Inr (r # rs))))"

definition get_top_tokens ::
  "('v list \<Rightarrow> 'v list) \<Rightarrow> (('v::linorder) list \<Rightarrow> nat list) \<Rightarrow> 'v tracker \<Rightarrow> int
     \<Rightarrow> positions_arg \<Rightarrow> bool \<Rightarrow> (error + 'v report list) \<times> 'v tracker" where
  "get_top_tokens softmax argsort self k positions include_logits =
     (let ps = (case positions of
                  AllPositions \<Rightarrow> map int [0..<length (structured_logits self)]
                | OnePosition p \<Rightarrow> [p]
                | Positions l \<Rightarrow> l)
      in case get_probabilities softmax self of
           Inl e \<Rightarrow> (Inl e, self)
         | Inr probs \<Rightarrow>
        (case (if include_logits
               then (case get_logits self of Inl e \<Rightarrow> Inl e | Inr lg \<Rightarrow> Inr (Some lg))
               else Inr None) of
           Inl e \<Rightarrow> (Inl e, self)
         | Inr logits \<Rightarrow>
        (case get_vocab_mapping self of
           (Inl e, s1) \<Rightarrow> (Inl e, s1)
         | (Inr vocab, s1) \<Rightarrow> (reports argsort s1 probs logits vocab k ps, s1))))"

subsection \<open>Tabular export (lines 327-423)\<close>

record 'v df_row =
  row_position :: nat
  row_token :: string
  natural :: 'v
  constrained :: 'v
  chosen :: bool

text \<open>
  Lines 396-403: the indices whose larger value reaches \<open>min_value\<close>, and of these
  the last ten in ascending order of that value (all of them when there are fewer).
\<close>

definition threshold_indices ::
  "(('v::linorder) list \<Rightarrow> nat list) \<Rightarrow> 'v list \<Rightarrow> 'v \<Rightarrow> nat list" where
  "threshold_indices argsort max_vals min_value =
     (let valid_indices = filter (\<lambda>i. max_vals ! i \<ge> min_value) [0..<length max_vals]
      in if length valid_indices > 0
         then map (\<lambda>j. valid_indices ! j)
                (py_slice_from (argsort (map (\<lambda>i. max_vals ! i) valid_indices)) (- 10))
         else valid_indices)"

text \<open>Lines 394-406: the indices that get a row at one position.\<close>

definition valid_indices_at ::
  "(('v::linorder) list \<Rightarrow> nat list) \<Rightarrow> string list \<Rightarrow> 'v list \<Rightarrow> 'v list \<Rightarrow> 'v option
     \<Rightarrow> error + nat list" where
  "valid_indices_at argsort vocab u_vals s_vals min_value =
     (case min_value of
        Some mv \<Rightarrow>
          (case np_maximum u_vals s_vals of
             Inl e \<Rightarrow> Inl e
           | Inr max_vals \<Rightarrow> Inr (threshold_indices argsort max_vals mv))
      | None \<Rightarrow> Inr [0..<length vocab])"

text \<open>Lines 409-421: the row of one index.\<close>

definition df_row_at ::
  "string list \<Rightarrow> 'v list \<Rightarrow> 'v list \<Rightarrow> string option \<Rightarrow> nat \<Rightarrow> nat
     \<Rightarrow> error + 'v df_row" where
  "df_row_at vocab u_vals s_vals chosen_token pos idx =
     (case py_index vocab (int idx) of
        Inl e \<Rightarrow> Inl e
      | Inr tk \<Rightarrow>
     (case py_index u_vals (int idx) of
        Inl e \<Rightarrow> Inl e
      | Inr uv \<Rightarrow>
     (case py_index s_vals (int idx) of
        Inl e \<Rightarrow> Inl e
      | Inr sv \<Rightarrow>
          Inr \<lparr>row_position = pos, row_token = tk, natural = uv, constrained = sv,
               chosen = (Some tk = chosen_token)\<rparr>)))"

text \<open>Lines 383-421: the rows of one position.\<close>

definition df_rows_at ::
  "(('v::linorder) list \<Rightarrow> nat list) \<Rightarrow> 'v tracker \<Rightarrow> 'v views \<Rightarrow> 'v option \<Rightarrow> string list
     \<Rightarrow> nat \<Rightarrow> error + 'v df_row list" where
  "df_rows_at argsort self vals min_value vocab pos =
     (case py_index (unstructured vals) (int pos) of
        Inl e \<Rightarrow> Inl e
      | Inr u_vals \<Rightarrow>
     (case py_index (structured vals) (int pos) of
        Inl e \<Rightarrow> Inl e
      | Inr s_vals \<Rightarrow>
     (case (if pos < length (chosen_tokens self)
            then (case py_index vocab (chosen_tokens self ! pos) of
                    Inl e \<Rightarrow> Inl e
                  | Inr tk \<Rightarrow> Inr (Some tk))
            else Inr None) of
        Inl e \<Rightarrow> Inl e
      | Inr chosen_token \<Rightarrow>
     (case valid_indices_at argsort vocab u_vals s_vals min_value of
        Inl e \<Rightarrow> Inl e
      | Inr valid_indices \<Rightarrow>
          collect (df_row_at vocab u_vals s_vals chosen_token pos) valid_indices))))"

text \<open>
  \<^verbatim>\<open>_to_dataframe\<close>: the vocabulary table first, then the rows of every position of
  the unstructured matrix, in order. (That \<^verbatim>\<open>pandas\<close> can be imported is taken for
  granted.)
\<close>

definition to_dataframe ::
  "(('v::linorder) list \<Rightarrow> nat list) \<Rightarrow> 'v tracker \<Rightarrow> 'v views \<Rightarrow> 'v option
     \<Rightarrow> (error + 'v df_row list) \<times> 'v tracker" where
  "to_dataframe argsort self vals min_value =
     (case get_vocab_mapping self of
        (Inl e, s1) \<Rightarrow> (Inl e, s1)
      | (Inr vocab, s1) \<Rightarrow>
          (case collect (df_rows_at argsort s1 vals min_value vocab)
                  [0..<length (unstructured vals)] of
             Inl e \<Rightarrow> (Inl e, s1)
           | Inr rowss \<Rightarrow> (Inr (concat rowss), s1)))"

definition get_probabilities_dataframe ::
  "('v list \<Rightarrow> 'v list) \<Rightarrow> (('v::linorder) list \<Rightarrow> nat list) \<Rightarrow> 'v tracker \<Rightarrow> 'v option
     \<Rightarrow> (error + 'v df_row list) \<times> 'v tracker" where
  "get_probabilities_dataframe softmax argsort self min_value =
     (case get_probabilities softmax self of
        Inl e \<Rightarrow> (Inl e, self)
      | Inr vals \<Rightarrow> to_dataframe argsort self vals min_value)"

definition get_logits_dataframe ::
  "(('v::linorder) list \<Rightarrow> nat list) \<Rightarrow> 'v tracker \<Rightarrow> 'v option
     \<Rightarrow> (error + 'v df_row list) \<times> 'v tracker" where
  "get_logits_dataframe argsort self min_value =
     (case get_logits self of
        Inl e \<Rightarrow> (Inl e, self)
      | Inr vals \<Rightarrow> to_dataframe argsort self vals min_value)"

subsection \<open>The ranking in the words of the specification\<close>

text \<open>
  The ranking in the words of the specification, for comparison with \<open>top_indices\<close>:
  a stable descending sort of the indices by value. Each index, in ascending order, is
  put behind every index already placed whose value is not smaller, so that indices of
  equal value stay in ascending order.
\<close>

fun insert_descending :: "('v::linorder) list \<Rightarrow> nat \<Rightarrow> nat list \<Rightarrow> nat list" where
  "insert_descending xs i [] = [i]"
| "insert_descending xs i (j # js) =
     (if xs ! j < xs ! i then i # j # js else j # insert_descending xs i js)"

definition spec_stable_descending :: "('v::linorder) list \<Rightarrow> nat list" where
  "spec_stable_descending xs =
     foldl (\<lambda>acc i. insert_descending xs i acc) [] [0..<length xs]"

section \<open>Properties of the processing entry point\<close>

subsection \<open>One valid call\<close>

lemma valid_call_cong:
  "processor s1 = processor self \<Longrightarrow> valid_call s1 c = valid_call self c"
  by (simp add: valid_call_def)

lemma valid_call_shape:
  assumes "valid_call self (ids, lg)"
  obtains i row where "ids = [i]" and "lg = [row]"
proof -
  from assms have "length ids = 1" "length lg = 1" by (simp_all add: valid_call_def)
  then obtain i row where "ids = [i]" "lg = [row]"
    by (metis One_nat_def length_0_conv length_Suc_conv)
  then show ?thesis using that by blast
qed

lemma valid_call_step:
  assumes "valid_call self (ids, lg)"
  shows "\<exists>out s1. process_logits self ids lg = (Inr out, s1) \<and>
           unstructured_logits s1 = unstructured_logits self @ [hd lg] \<and>
           (\<exists>srow. structured_logits s1 = structured_logits self @ [srow]) \<and>
           processor s1 = processor self \<and>
           started s1 \<and>
           chosen_tokens s1 =
             (if started self \<and> length (hd ids) > 1
              then chosen_tokens self @ [last (hd ids)] else chosen_tokens self)"
proof -
  from assms obtain i row where ids: "ids = [i]" and lg: "lg = [row]"
    by (rule valid_call_shape)
  show ?thesis
  proof (cases "processor self")
    case None
    then show ?thesis
      by (simp add: ids lg process_logits_def apply_processor_def Let_def)
  next
    case (Some d)
    with assms obtain prow prows where
      "lp_process_logits d [i] [row] = Inr (prow # prows)"
      by (cases "lp_process_logits d [i] [row]")
         (auto simp: valid_call_def ids lg neq_Nil_conv)
    with Some show ?thesis
      by (simp add: ids lg process_logits_def apply_processor_def Let_def)
  qed
qed

lemma valid_calls_lengths:
  assumes "\<forall>c \<in> set calls. valid_call self c"
  shows "length (unstructured_logits (snd (process_calls self calls)))
           = length (unstructured_logits self) + length calls \<and>
         length (structured_logits (snd (process_calls self calls)))
           = length (structured_logits self) + length calls \<and>
         (\<forall>r \<in> set (fst (process_calls self calls)). \<exists>out. r = Inr out)"
  using assms
proof (induction calls arbitrary: self)
  case Nil
  then show ?case by simp
next
  case (Cons c calls)
  obtain ids lg where c: "c = (ids, lg)" by (cases c)
  from Cons.prems c have "valid_call self (ids, lg)" by simp
  from valid_call_step [OF this] obtain out s1 srow where
    step: "process_logits self ids lg = (Inr out, s1)"
    and u: "unstructured_logits s1 = unstructured_logits self @ [hd lg]"
    and s: "structured_logits s1 = structured_logits self @ [srow]"
    and p: "processor s1 = processor self"
    by blast
  from Cons.prems p have "\<forall>c \<in> set calls. valid_call s1 c"
    by (simp add: valid_call_cong [OF p])
  from Cons.IH [OF this] have
    ih: "length (unstructured_logits (snd (process_calls s1 calls)))
           = length (unstructured_logits s1) + length calls"
        "length (structured_logits (snd (process_calls s1 calls)))
           = length (structured_logits s1) + length calls"
        "\<forall>r \<in> set (fst (process_calls s1 calls)). \<exists>out. r = Inr out"
    by simp_all
  obtain rs s2 where rest: "process_calls s1 calls = (rs, s2)"
    by (cases "process_calls s1 calls")
  have unfold: "process_calls self (c # calls) = (Inr out # rs, s2)"
    by (simp add: c step rest)
  show ?case
    unfolding unfold using ih by (simp add: rest u s)
qed

lemma valid_calls_chosen:
  assumes "\<forall>c \<in> set calls. valid_call self c" and "started self"
  shows "chosen_tokens (snd (process_calls self calls))
           = chosen_tokens self
             @ map (\<lambda>c. last (hd (fst c))) (filter (\<lambda>c. length (hd (fst c)) > 1) calls)"
  using assms
proof (induction calls arbitrary: self)
  case Nil
  then show ?case by simp
next
  case (Cons c calls)
  obtain ids lg where c: "c = (ids, lg)" by (cases c)
  from Cons.prems c have "valid_call self (ids, lg)" by simp
  from valid_call_step [OF this] obtain out s1 where
    step: "process_logits self ids lg = (Inr out, s1)"
    and p: "processor s1 = processor self"
    and st: "started s1"
    and ch: "chosen_tokens s1 =
             (if started self \<and> length (hd ids) > 1
              then chosen_tokens self @ [last (hd ids)] else chosen_tokens self)"
    by blast
  from Cons.prems p have "\<forall>c \<in> set calls. valid_call s1 c"
    by (simp add: valid_call_cong [OF p])
  from Cons.IH [OF this st] have
    ih: "chosen_tokens (snd (process_calls s1 calls))
           = chosen_tokens s1
             @ map (\<lambda>c. last (hd (fst c))) (filter (\<lambda>c. length (hd (fst c)) > 1) calls)" .
  obtain rs s2 where rest: "process_calls s1 calls = (rs, s2)"
    by (cases "process_calls s1 calls")
  have unfold: "process_calls self (c # calls) = (Inr out # rs, s2)"
    by (simp add: c step rest)
  show ?case
    unfolding unfold using ih Cons.prems(2) by (simp add: rest ch c)
qed

subsection \<open>Store alignment\<close>

text \<open>
  Claim C1. Start from a tracker whose two stores have the same length. After every
  prefix of a sequence of valid single-sequence calls the unstructured and the structured
  store still have the same length, each has grown by exactly one entry per call, and
  every call of the prefix has returned.
\<close>

theorem stores_grow_together:
  assumes "length (unstructured_logits self) = length (structured_logits self)"
    and "\<forall>c \<in> set calls. valid_call self c"
    and "n \<le> length calls"
  shows "length (unstructured_logits (snd (process_calls self (take n calls))))
           = length (structured_logits (snd (process_calls self (take n calls)))) \<and>
         length (unstructured_logits (snd (process_calls self (take n calls))))
           = length (unstructured_logits self) + n \<and>
         length (structured_logits (snd (process_calls self (take n calls))))
           = length (structured_logits self) + n \<and>
         (\<forall>r \<in> set (fst (process_calls self (take n calls))). \<exists>out. r = Inr out)"
proof -
  from assms(2) have "\<forall>c \<in> set (take n calls). valid_call self c"
    by (meson in_set_takeD)
  from valid_calls_lengths [OF this] assms(1,3) show ?thesis
    by simp
qed

theorem stores_grow_together_witness:
  "length (unstructured_logits (snd (process_calls (init None)
      (take 2 [([[0]], [[1::int, 1]]), ([[0, 1]], [[1, 1]]), ([[0, 1, 2]], [[1, 1]])])))) = 2 \<and>
   length (structured_logits (snd (process_calls (init None)
      (take 2 [([[0]], [[1::int, 1]]), ([[0, 1]], [[1, 1]]), ([[0, 1, 2]], [[1, 1]])])))) = 2"
  using stores_grow_together [of "init None"
      "[([[0]], [[1::int, 1]]), ([[0, 1]], [[1, 1]]), ([[0, 1, 2]], [[1, 1]])]" 2]
  by (simp add: init_def valid_call_def)

subsection \<open>Chosen-token log\<close>

text \<open>
  Claim C2. On a fresh tracker the first valid call sets the started flag and appends
  nothing to the chosen-token log. Every later valid call whose token history is longer
  than 1 appends the last element of that history, the others append nothing; so when all
  later histories are longer than 1, the log after the n-th call has n - 1 entries. The
  witness is the run \<^verbatim>\<open>[[0]]\<close>, \<^verbatim>\<open>[[0,1]]\<close>, \<^verbatim>\<open>[[0,1,2]]\<close>, whose log is \<^verbatim>\<open>[1, 2]\<close>.
\<close>

theorem chosen_token_alignment:
  assumes "\<not> started self" and "chosen_tokens self = []"
    and "\<forall>c \<in> set (c0 # cs). valid_call self c"
  shows "started (snd (process_calls self [c0])) \<and>
         chosen_tokens (snd (process_calls self [c0])) = [] \<and>
         chosen_tokens (snd (process_calls self (c0 # cs)))
           = map (\<lambda>c. last (hd (fst c))) (filter (\<lambda>c. length (hd (fst c)) > 1) cs) \<and>
         ((\<forall>c \<in> set cs. length (hd (fst c)) > 1) \<longrightarrow>
            length (chosen_tokens (snd (process_calls self (c0 # cs)))) = length (c0 # cs) - 1)"
proof -
  obtain ids lg where c0: "c0 = (ids, lg)" by (cases c0)
  from assms(3) c0 have "valid_call self (ids, lg)" by simp
  from valid_call_step [OF this] assms(1,2) obtain out s1 where
    step: "process_logits self ids lg = (Inr out, s1)"
    and p: "processor s1 = processor self"
    and st: "started s1"
    and ch: "chosen_tokens s1 = []"
    by auto
  from assms(3) p have v: "\<forall>c \<in> set cs. valid_call s1 c"
    by (simp add: valid_call_cong [OF p])
  have rest: "chosen_tokens (snd (process_calls s1 cs))
      = map (\<lambda>c. last (hd (fst c))) (filter (\<lambda>c. length (hd (fst c)) > 1) cs)"
    using valid_calls_chosen [OF v st] ch by simp
  have all: "(\<forall>c \<in> set cs. length (hd (fst c)) > 1) \<longrightarrow>
      filter (\<lambda>c. length (hd (fst c)) > 1) cs = cs"
    by (simp add: filter_id_conv)
  obtain rs s2 where tail: "process_calls s1 cs = (rs, s2)"
    by (cases "process_calls s1 cs")
  have first: "process_calls self [c0] = ([Inr out], s1)"
    by (simp add: c0 step)
  have whole: "process_calls self (c0 # cs) = (Inr out # rs, s2)"
    by (simp add: c0 step tail)
  show ?thesis
    unfolding first whole using rest all by (simp add: tail st ch)
qed

theorem chosen_token_alignment_witness:
  "chosen_tokens (snd (process_calls (init None)
      [([[0]], [[1::int, 1]]), ([[0, 1]], [[1, 1]]), ([[0, 1, 2]], [[1, 1]])])) = [1, 2]"
  using chosen_token_alignment [of "init None" "([[0]], [[1::int, 1]])"
      "[([[0, 1]], [[1, 1]]), ([[0, 1, 2]], [[1, 1]])]"]
  by (simp add: init_def valid_call_def)

subsection \<open>Batch-size guard\<close>

text \<open>
  Claim C3, as stated, asks every call whose token history or score batch is not exactly
  one sequence to fail with InvalidBatchSize and to leave the tracker untouched. The
  guards of lines 115 and 120 test \<^verbatim>\<open>> 1\<close> only: an empty token history given to a fresh
  tracker without wrapped processor is accepted, the call returns and the raw row is stored.
\<close>

theorem empty_history_accepted:
  "length ([] :: int list list) \<noteq> 1 \<and>
   fst (process_logits (init None) [] [[1::int]]) = Inr [[1]] \<and>
   unstructured_logits (snd (process_logits (init None) [] [[1::int]])) = [[1]] \<and>
   unstructured_logits (init None :: int tracker) = []"
  by (simp add: process_logits_def apply_processor_def init_def)

text \<open>
  Claim C3, amended. A call whose score batch or whose token history holds more than one
  sequence fails with InvalidBatchSize, whatever the other argument is, and the tracker
  is returned exactly as it was.
\<close>

theorem batch_guard:
  assumes "length logits > 1 \<or> length input_ids > 1"
  shows "\<exists>d n. process_logits self input_ids logits = (Inl (InvalidBatchSize d n), self)"
  using assms by (auto simp: process_logits_def)

theorem batch_guard_witness:
  "\<exists>d n. process_logits (init None) [[0], [0]] [[1::int, 1]]
       = (Inl (InvalidBatchSize d n), init None)"
  using batch_guard [of "[[1::int, 1]]" "[[0], [0]]" "init None"] by simp

subsection \<open>Failure of the wrapped processor\<close>

text \<open>
  Claim C10. When the wrapped processor raises on a single-sequence call, the call raises
  the same exception, but the raw row is already in the unstructured store and, when the
  tracker had started and the token history is longer than 1, the last token is already
  in the chosen-token log; the structured store is unchanged. If the stores had equal
  length before, the unstructured store is now one entry longer than the structured one.
\<close>

theorem delegate_failure_not_atomic:
  assumes "processor self = Some d"
    and "lp_process_logits d [ids] [row] = Inl e"
  shows "fst (process_logits self [ids] [row]) = Inl e \<and>
         unstructured_logits (snd (process_logits self [ids] [row]))
           = unstructured_logits self @ [row] \<and>
         structured_logits (snd (process_logits self [ids] [row]))
           = structured_logits self \<and>
         chosen_tokens (snd (process_logits self [ids] [row]))
           = (if started self \<and> length ids > 1
              then chosen_tokens self @ [last ids] else chosen_tokens self) \<and>
         (length (unstructured_logits self) = length (structured_logits self) \<longrightarrow>
            length (unstructured_logits (snd (process_logits self [ids] [row])))
              = Suc (length (structured_logits (snd (process_logits self [ids] [row])))))"
  using assms by (simp add: process_logits_def apply_processor_def Let_def)

theorem delegate_failure_not_atomic_witness:
  "fst (process_logits
         ((init (Some \<lparr>lp_process_logits = (\<lambda>_ _. Inl DelegateError), lp_tokenizer = None\<rparr>))
            \<lparr>started := True\<rparr>) [[0, 1]] [[1::int, 1]]) = Inl DelegateError \<and>
   unstructured_logits (snd (process_logits
         ((init (Some \<lparr>lp_process_logits = (\<lambda>_ _. Inl DelegateError), lp_tokenizer = None\<rparr>))
            \<lparr>started := True\<rparr>) [[0, 1]] [[1::int, 1]])) = [[1, 1]] \<and>
   structured_logits (snd (process_logits
         ((init (Some \<lparr>lp_process_logits = (\<lambda>_ _. Inl DelegateError), lp_tokenizer = None\<rparr>))
            \<lparr>started := True\<rparr>) [[0, 1]] [[1::int, 1]])) = [] \<and>
   chosen_tokens (snd (process_logits
         ((init (Some \<lparr>lp_process_logits = (\<lambda>_ _. Inl DelegateError), lp_tokenizer = None\<rparr>))
            \<lparr>started := True\<rparr>) [[0, 1]] [[1::int, 1]])) = [1]"
  using delegate_failure_not_atomic
    [of "(init (Some \<lparr>lp_process_logits = (\<lambda>_ _. Inl DelegateError), lp_tokenizer = None\<rparr>))
            \<lparr>started := True\<rparr>"
        "\<lparr>lp_process_logits = (\<lambda>_ _. Inl DelegateError), lp_tokenizer = None\<rparr>"
        "[0, 1]" "[1::int, 1]" DelegateError]
  by (simp add: init_def)

section \<open>Properties of clear\<close>

text \<open>
  Claim C9. \<^verbatim>\<open>clear\<close> empties the unstructured store, the structured store and the
  chosen-token log, and leaves the started flag, the cached vocabulary table, the wrapped
  processor and the tokenizer as they were.
\<close>

theorem clear_resets_stores_only:
  "unstructured_logits (clear self) = [] \<and> structured_logits (clear self) = [] \<and>
   chosen_tokens (clear self) = [] \<and> started (clear self) = started self \<and>
   vocab_tokens (clear self) = vocab_tokens self \<and>
   processor (clear self) = processor self \<and> tokenizer (clear self) = tokenizer self"
  by (simp add: clear_def)

section \<open>Properties of the vocabulary table\<close>

lemma decode_each_Inr:
  "decode_each tok is = Inr vt \<Longrightarrow>
     length vt = length is \<and>
     (\<forall>j < length is. \<exists>ss. tok [is ! j] = Inr ((vt ! j) # ss))"
proof (induction "is" arbitrary: vt)
  case Nil
  then show ?case by simp
next
  case (Cons i "is")
  from Cons.prems obtain s ss rest where
    hd: "tok [i] = Inr (s # ss)" and tl: "decode_each tok is = Inr rest" and vt: "vt = s # rest"
    by (auto split: sum.splits list.splits)
  from Cons.IH [OF tl] show ?case
    by (auto simp: vt hd nth_Cons split: nat.splits)
qed

lemma decode_each_total:
  "\<forall>i \<in> set is. \<exists>s ss. tok [i] = Inr (s # ss) \<Longrightarrow> \<exists>vt. decode_each tok is = Inr vt"
  by (induction "is") auto

lemma process_logits_cache_frame:
  "vocab_tokens (snd (process_logits self ids lg)) = vocab_tokens self \<and>
   tokenizer (snd (process_logits self ids lg)) = tokenizer self"
  by (simp add: process_logits_def apply_processor_def Let_def
           split: list.splits option.splits sum.splits)

lemma get_vocab_mapping_cached:
  "tokenizer self = Some tok \<Longrightarrow> vocab_tokens self = Some vt \<Longrightarrow>
     get_vocab_mapping self = (Inr vt, self)"
  by (simp add: get_vocab_mapping_def)

lemma get_vocab_mapping_frame:
  "unstructured_logits (snd (get_vocab_mapping self)) = unstructured_logits self \<and>
   structured_logits (snd (get_vocab_mapping self)) = structured_logits self \<and>
   chosen_tokens (snd (get_vocab_mapping self)) = chosen_tokens self \<and>
   processor (snd (get_vocab_mapping self)) = processor self \<and>
   tokenizer (snd (get_vocab_mapping self)) = tokenizer self"
  by (simp add: get_vocab_mapping_def split: option.splits list.splits sum.splits)

text \<open>
  Claim C6. Without a tokenizer \<^verbatim>\<open>get_vocab_mapping\<close> raises NoTokenizerAvailable and
  changes nothing. With a tokenizer and a cached table it returns the cache and changes
  nothing, whatever the stores hold. With a tokenizer, no cache and a stored vector, if
  the tokenizer decodes every index below the width of the first stored unstructured
  vector, the table is built with exactly that many entries (entry \<open>i\<close> the first
  string of decoding \<open>[i]\<close> alone) and cached; after that, a call made after any further
  \<^verbatim>\<open>process_logits\<close> call, of any width, or after \<^verbatim>\<open>clear\<close> returns the same table.
\<close>

theorem vocab_mapping_lazy_cached:
  "(tokenizer self = None \<longrightarrow> get_vocab_mapping self = (Inl NoTokenizerAvailable, self)) \<and>
   (\<forall>tok vt. tokenizer self = Some tok \<and> vocab_tokens self = Some vt \<longrightarrow>
      get_vocab_mapping self = (Inr vt, self)) \<and>
   (\<forall>tok v vs.
      tokenizer self = Some tok \<and> vocab_tokens self = None \<and>
      unstructured_logits self = v # vs \<and>
      (\<forall>i < length v. \<exists>s ss. tok [int i] = Inr (s # ss)) \<longrightarrow>
      (\<exists>vt. get_vocab_mapping self = (Inr vt, self\<lparr>vocab_tokens := Some vt\<rparr>) \<and>
            length vt = length v \<and>
            (\<forall>i < length v. \<exists>ss. tok [int i] = Inr ((vt ! i) # ss)) \<and>
            (\<forall>ids lg. get_vocab_mapping (snd (process_logits (self\<lparr>vocab_tokens := Some vt\<rparr>) ids lg))
               = (Inr vt, snd (process_logits (self\<lparr>vocab_tokens := Some vt\<rparr>) ids lg))) \<and>
            get_vocab_mapping (clear (self\<lparr>vocab_tokens := Some vt\<rparr>))
               = (Inr vt, clear (self\<lparr>vocab_tokens := Some vt\<rparr>))))"
proof (intro conjI allI impI)
  show "get_vocab_mapping self = (Inl NoTokenizerAvailable, self)" if "tokenizer self = None"
    using that by (simp add: get_vocab_mapping_def)
next
  fix tok vt
  assume "tokenizer self = Some tok \<and> vocab_tokens self = Some vt"
  then show "get_vocab_mapping self = (Inr vt, self)"
    by (simp add: get_vocab_mapping_cached)
next
  fix tok v vs
  assume a: "tokenizer self = Some tok \<and> vocab_tokens self = None \<and>
      unstructured_logits self = v # vs \<and>
      (\<forall>i < length v. \<exists>s ss. tok [int i] = Inr (s # ss))"
  then have "\<forall>i \<in> set (map int [0..<length v]). \<exists>s ss. tok [i] = Inr (s # ss)"
    by auto
  from decode_each_total [OF this] obtain vt where
    vt: "decode_each tok (map int [0..<length v]) = Inr vt" by blast
  from decode_each_Inr [OF vt] have
    len: "length vt = length v" and
    nth: "\<forall>i < length v. \<exists>ss. tok [int i] = Inr ((vt ! i) # ss)"
    by auto
  let ?s1 = "self\<lparr>vocab_tokens := Some vt\<rparr>"
  have built: "get_vocab_mapping self = (Inr vt, ?s1)"
    using a vt by (simp add: get_vocab_mapping_def)
  have later: "get_vocab_mapping (snd (process_logits ?s1 ids lg))
      = (Inr vt, snd (process_logits ?s1 ids lg))" for ids lg
    using a by (intro get_vocab_mapping_cached [of _ tok])
               (simp_all add: process_logits_cache_frame)
  have cleared: "get_vocab_mapping (clear ?s1) = (Inr vt, clear ?s1)"
    using a by (intro get_vocab_mapping_cached [of _ tok]) (simp_all add: clear_def)
  show "\<exists>vt. get_vocab_mapping self = (Inr vt, self\<lparr>vocab_tokens := Some vt\<rparr>) \<and>
            length vt = length v \<and>
            (\<forall>i < length v. \<exists>ss. tok [int i] = Inr ((vt ! i) # ss)) \<and>
            (\<forall>ids lg. get_vocab_mapping (snd (process_logits (self\<lparr>vocab_tokens := Some vt\<rparr>) ids lg))
               = (Inr vt, snd (process_logits (self\<lparr>vocab_tokens := Some vt\<rparr>) ids lg))) \<and>
            get_vocab_mapping (clear (self\<lparr>vocab_tokens := Some vt\<rparr>))
               = (Inr vt, clear (self\<lparr>vocab_tokens := Some vt\<rparr>))"
    using built len nth later cleared by blast
qed

theorem vocab_mapping_lazy_cached_witness:
  "get_vocab_mapping (init None :: int tracker) = (Inl NoTokenizerAvailable, init None) \<and>
   fst (get_vocab_mapping
     ((init None)\<lparr>unstructured_logits := [[1::int, 1]],
        tokenizer := Some (\<lambda>ids. Inr (map (\<lambda>i. if i = 0 then ''a'' else ''b'') ids))\<rparr>))
     = Inr [''a'', ''b''] \<and>
   vocab_tokens (snd (get_vocab_mapping
     ((init None)\<lparr>unstructured_logits := [[1::int, 1]],
        tokenizer := Some (\<lambda>ids. Inr (map (\<lambda>i. if i = 0 then ''a'' else ''b'') ids))\<rparr>)))
     = Some [''a'', ''b''] \<and>
   fst (get_vocab_mapping
     ((init None)\<lparr>unstructured_logits := [[1::int, 1, 1]], vocab_tokens := Some [''a'', ''b''],
        tokenizer := Some (\<lambda>ids. Inr (map (\<lambda>i. if i = 0 then ''a'' else ''b'') ids))\<rparr>))
     = Inr [''a'', ''b'']"
  using vocab_mapping_lazy_cached [of "init None :: int tracker"]
    vocab_mapping_lazy_cached
      [of "(init None)\<lparr>unstructured_logits := [[1::int, 1]],
        tokenizer := Some (\<lambda>ids. Inr (map (\<lambda>i. if i = 0 then ''a'' else ''b'') ids))\<rparr>"]
    vocab_mapping_lazy_cached
      [of "(init None)\<lparr>unstructured_logits := [[1::int, 1, 1]],
        vocab_tokens := Some [''a'', ''b''],
        tokenizer := Some (\<lambda>ids. Inr (map (\<lambda>i. if i = 0 then ''a'' else ''b'') ids))\<rparr>"]
  by (simp add: init_def get_vocab_mapping_def upt_rec)

section \<open>Properties of the query layer\<close>

subsection \<open>Evaluation on concrete trackers\<close>

lemmas eval_defs =
  init_def process_logits_def apply_processor_def get_top_tokens_def
  get_probabilities_def get_logits_def column_stack_def get_vocab_mapping_def
  sequence_up_to_def sequence_tokenizer_def py_slice_to_def upt_rec
  report_at_def py_index_def logit_columns_def np_maximum_def next_token_at_def
  top_indices_def stable_argsort_def py_slice_from_def token_info_at_def
  to_dataframe_def df_rows_at_def valid_indices_at_def threshold_indices_def df_row_at_def

subsection \<open>Positions outside the recorded range\<close>

lemma reports_skip:
  "reports asort self probs logits vocab k ps
     = reports asort self probs logits vocab k
         (filter (\<lambda>p. p < int (length (unstructured_logits self))) ps)"
  by (induction ps) (simp_all add: not_le split: sum.splits)

lemma report_at_position:
  "report_at asort self probs logits vocab k pos = Inr r \<Longrightarrow> position r = pos"
  by (auto simp: report_at_def split: sum.splits)

lemma reports_positions:
  "reports asort self probs logits vocab k ps = Inr rs \<Longrightarrow>
     map position rs = filter (\<lambda>p. p < int (length (unstructured_logits self))) ps"
proof (induction ps arbitrary: rs)
  case Nil
  then show ?case by simp
next
  case (Cons p ps)
  show ?case
  proof (cases "p \<ge> int (length (unstructured_logits self))")
    case True
    with Cons show ?thesis by simp
  next
    case False
    with Cons.prems obtain r rest where
      r: "report_at asort self probs logits vocab k p = Inr r"
      and rest: "reports asort self probs logits vocab k ps = Inr rest"
      and rs: "rs = r # rest"
      by (auto split: sum.splits)
    from Cons.IH [OF rest] report_at_position [OF r] False show ?thesis
      by (simp add: rs)
  qed
qed

lemma get_top_tokens_skip:
  "get_top_tokens sm asort self k (Positions ps) incl
     = get_top_tokens sm asort self k
         (Positions (filter (\<lambda>p. p < int (length (unstructured_logits self))) ps)) incl"
proof -
  obtain r s1 where v: "get_vocab_mapping self = (r, s1)"
    by (cases "get_vocab_mapping self")
  have len: "unstructured_logits s1 = unstructured_logits self"
    using get_vocab_mapping_frame [of self] by (simp add: v)
  show ?thesis
    using reports_skip [of asort s1 _ _ _ k ps]
    by (simp add: get_top_tokens_def v len split: sum.splits)
qed

lemma get_top_tokens_positions:
  assumes "get_top_tokens sm asort self k (Positions ps) incl = (Inr rs, s1)"
  shows "map position rs = filter (\<lambda>p. p < int (length (unstructured_logits self))) ps"
proof -
  obtain r s2 where v: "get_vocab_mapping self = (r, s2)"
    by (cases "get_vocab_mapping self")
  have len: "unstructured_logits s2 = unstructured_logits self"
    using get_vocab_mapping_frame [of self] by (simp add: v)
  from assms obtain probs logits vocab where
    "reports asort s2 probs logits vocab k ps = Inr rs"
    by (auto simp: get_top_tokens_def v split: sum.splits if_splits)
  from reports_positions [OF this] show ?thesis by (simp add: len)
qed

lemma py_slice_to_beyond:
  "i \<ge> int (length xs) \<Longrightarrow> py_slice_to xs i = xs"
  by (simp add: py_slice_to_def)

text \<open>
  Claim C7, as stated, has no out-of-range position raise in the query layer. Line 242
  skips a position only when it is at or past the number of recorded positions; a
  negative position below the first column is indexed in line 249 and raises.
\<close>

theorem negative_position_raises:
  "fst (get_top_tokens (\<lambda>xs. map (\<lambda>_. 1 / 2) xs) stable_argsort
      (snd (process_logits
        ((init None)\<lparr>tokenizer := Some (\<lambda>ids. Inr (map (\<lambda>i. if i = 0 then ''a'' else ''b'') ids))\<rparr>)
        [[0]] [[0::real, 0]])) 2 (Positions [- 5]) True) = Inl IndexError \<and>
   length (unstructured_logits (snd (process_logits
        ((init None)\<lparr>tokenizer := Some (\<lambda>ids. Inr (map (\<lambda>i. if i = 0 then ''a'' else ''b'') ids))\<rparr>)
        [[0]] [[0::real, 0]]))) = 1"
  by (simp add: eval_defs)

text \<open>
  Claim C7, amended. Positions at or past the end of the recorded range are never
  errors: \<^verbatim>\<open>get_top_tokens\<close> gives the same outcome with and without them and reports
  exactly the requested positions below the number of recorded positions, in order;
  \<^verbatim>\<open>sequence_up_to\<close> at a position at or past the length of the chosen-token log is
  \<^verbatim>\<open>sequence_up_to\<close> of the whole log; and on an empty log it returns the empty string,
  with or without a tokenizer.
\<close>

theorem out_of_range_positions_lenient:
  "get_top_tokens sm asort self k (Positions ps) incl
     = get_top_tokens sm asort self k
         (Positions (filter (\<lambda>p. p < int (length (unstructured_logits self))) ps)) incl \<and>
   (\<forall>rs s1. get_top_tokens sm asort self k (Positions ps) incl = (Inr rs, s1) \<longrightarrow>
      map position rs = filter (\<lambda>p. p < int (length (unstructured_logits self))) ps) \<and>
   (\<forall>p. p \<ge> int (length (chosen_tokens self)) \<longrightarrow>
      sequence_up_to self (Some p) = sequence_up_to self None) \<and>
   (chosen_tokens self = [] \<longrightarrow> sequence_up_to self pos = Inr [])"
proof (intro conjI allI impI)
  show "get_top_tokens sm asort self k (Positions ps) incl
     = get_top_tokens sm asort self k
         (Positions (filter (\<lambda>p. p < int (length (unstructured_logits self))) ps)) incl"
    by (rule get_top_tokens_skip)
next
  fix rs s1
  assume "get_top_tokens sm asort self k (Positions ps) incl = (Inr rs, s1)"
  then show "map position rs = filter (\<lambda>p. p < int (length (unstructured_logits self))) ps"
    by (rule get_top_tokens_positions)
next
  fix p
  assume "p \<ge> int (length (chosen_tokens self))"
  then show "sequence_up_to self (Some p) = sequence_up_to self None"
    by (simp add: sequence_up_to_def py_slice_to_beyond Let_def split: option.splits)
next
  assume "chosen_tokens self = []"
  then show "sequence_up_to self pos = Inr []"
    by (simp add: sequence_up_to_def)
qed

theorem out_of_range_positions_lenient_witness:
  "fst (get_top_tokens (\<lambda>xs. map (\<lambda>_. 1 / 2) xs) stable_argsort
      (snd (process_logits
        ((init None)\<lparr>tokenizer := Some (\<lambda>ids. Inr (map (\<lambda>i. if i = 0 then ''a'' else ''b'') ids))\<rparr>)
        [[0]] [[0::real, 0]])) 2 (Positions [100]) True) = Inr [] \<and>
   sequence_up_to ((init None)\<lparr>chosen_tokens := [1, 0],
        tokenizer := Some (\<lambda>ids. Inr (map (\<lambda>i. if i = 0 then ''a'' else ''b'') ids))\<rparr> :: real tracker)
      (Some 100) = Inr ''ba'' \<and>
   sequence_up_to (init None :: real tracker) (Some 100) = Inr []"
  using
    out_of_range_positions_lenient
      [of "\<lambda>xs. map (\<lambda>_. 1 / 2) xs" stable_argsort
          "snd (process_logits
            ((init None)\<lparr>tokenizer := Some (\<lambda>ids. Inr (map (\<lambda>i. if i = 0 then ''a'' else ''b'') ids))\<rparr>)
            [[0]] [[0::real, 0]])" 2 "[100]" True "Some 100"]
    out_of_range_positions_lenient
      [of "\<lambda>xs. map (\<lambda>_. 1 / 2) xs" stable_argsort
          "(init None)\<lparr>chosen_tokens := [1, 0],
        tokenizer := Some (\<lambda>ids. Inr (map (\<lambda>i. if i = 0 then ''a'' else ''b'') ids))\<rparr> :: real tracker"
          2 "[]" True "Some 100"]
    out_of_range_positions_lenient
      [of "\<lambda>xs. map (\<lambda>_. 1 / 2) xs" stable_argsort "init None :: real tracker" 2 "[]" True "Some 100"]
  by (simp add: init_def process_logits_def apply_processor_def get_top_tokens_def
        get_probabilities_def get_logits_def column_stack_def get_vocab_mapping_def
        sequence_up_to_def sequence_tokenizer_def py_slice_to_def upt_rec)

subsection \<open>What a returned report was built from\<close>

lemma py_index_nat:
  "py_index xs (int i) = Inr x \<longleftrightarrow> i < length xs \<and> x = xs ! i"
  by (auto simp: py_index_def)

lemma collect_Inr:
  "collect f xs = Inr ys \<Longrightarrow>
     length ys = length xs \<and> (\<forall>j < length xs. f (xs ! j) = Inr (ys ! j))"
proof (induction xs arbitrary: ys)
  case Nil
  then show ?case by simp
next
  case (Cons x xs)
  from Cons.prems obtain y rest where
    y: "f x = Inr y" and rest: "collect f xs = Inr rest" and ys: "ys = y # rest"
    by (auto split: sum.splits)
  from Cons.IH [OF rest] show ?case
    by (auto simp: ys y nth_Cons split: nat.splits)
qed

lemma token_info_at_Inr:
  assumes "token_info_at vocab u s lgs nt idx = Inr t"
  shows "idx < length vocab \<and> idx < length u \<and> idx < length s \<and>
         token t = vocab ! idx \<and> unstructured_prob t = u ! idx \<and>
         structured_prob t = s ! idx \<and> is_chosen t = (vocab ! idx = nt)"
proof -
  from assms obtain tk up sp where
    a: "py_index vocab (int idx) = Inr tk" and b: "py_index u (int idx) = Inr up"
    and c: "py_index s (int idx) = Inr sp"
    by (auto simp: token_info_at_def split: sum.splits)
  from assms a b c have "token t = tk \<and> unstructured_prob t = up \<and>
      structured_prob t = sp \<and> is_chosen t = (tk = nt)"
    by (auto simp: token_info_at_def split: sum.splits option.splits prod.splits)
  with a b c show ?thesis by (simp add: py_index_nat)
qed

lemma np_maximum_nth:
  assumes "np_maximum u s = Inr m" and "i < length u" and "i < length s"
  shows "i < length m \<and> m ! i = max (u ! i) (s ! i)"
proof (cases "length u = length s")
  case True
  with assms show ?thesis by (auto simp: np_maximum_def)
next
  case False
  show ?thesis
  proof (cases "length u = 1")
    case True
    with assms(2) have "i = 0" by simp
    with True False assms show ?thesis
      by (cases u) (auto simp: np_maximum_def)
  next
    case u: False
    with False assms(1) have s1: "length s = 1"
      by (auto simp: np_maximum_def split: if_splits)
    with assms(3) have "i = 0" by simp
    with s1 u False assms show ?thesis
      by (cases s) (auto simp: np_maximum_def)
  qed
qed

lemma reports_mem:
  "reports asort self probs logits vocab k ps = Inr rs \<Longrightarrow> r \<in> set rs \<Longrightarrow>
     \<exists>pos \<in> set ps. report_at asort self probs logits vocab k pos = Inr r"
proof (induction ps arbitrary: rs)
  case Nil
  then show ?case by simp
next
  case (Cons p ps)
  show ?case
  proof (cases "p \<ge> int (length (unstructured_logits self))")
    case True
    with Cons show ?thesis by auto
  next
    case False
    with Cons.prems(1) obtain r0 rest where
      r0: "report_at asort self probs logits vocab k p = Inr r0"
      and rest: "reports asort self probs logits vocab k ps = Inr rest"
      and rs: "rs = r0 # rest"
      by (auto split: sum.splits)
    show ?thesis
    proof (cases "r = r0")
      case True
      with r0 show ?thesis by simp
    next
      case False
      with Cons.prems(2) rs have "r \<in> set rest" by simp
      from Cons.IH [OF rest this] show ?thesis by auto
    qed
  qed
qed

lemma report_at_Inr:
  assumes "report_at asort self probs logits vocab k pos = Inr r"
  shows "\<exists>u s lgs m nt.
           py_index (unstructured probs) pos = Inr u \<and>
           py_index (structured probs) pos = Inr s \<and>
           np_maximum u s = Inr m \<and>
           next_token_at self pos (text_so_far r) = Inr nt \<and>
           collect (token_info_at vocab u s lgs nt) (top_indices asort m k) = Inr (tokens r) \<and>
           position r = pos"
  using assms by (auto simp: report_at_def split: sum.splits)

lemma get_top_tokens_Inr:
  assumes "get_top_tokens sm asort self k positions incl = (Inr rs, s1)"
  shows "\<exists>probs logits vocab ps.
           get_probabilities sm self = Inr probs \<and>
           get_vocab_mapping self = (Inr vocab, s1) \<and>
           reports asort s1 probs logits vocab k ps = Inr rs"
proof -
  obtain v s2 where v: "get_vocab_mapping self = (v, s2)"
    by (cases "get_vocab_mapping self")
  from assms show ?thesis
    by (cases v) (auto simp: get_top_tokens_def Let_def v split: sum.splits if_splits)
qed

subsection \<open>The chosen mark at the last recorded position\<close>

lemma last_position_is_chosen:
  assumes "report_at asort self probs logits vocab k pos = Inr r"
    and "\<not> pos < int (length (structured_logits self)) - 1"
  shows "\<forall>t \<in> set (tokens r). is_chosen t = (token t = [])"
proof
  fix t assume t: "t \<in> set (tokens r)"
  from report_at_Inr [OF assms(1)] obtain u s lgs m nt where
    "py_index (unstructured probs) pos = Inr u"
    and "py_index (structured probs) pos = Inr s"
    and "np_maximum u s = Inr m"
    and nt: "next_token_at self pos (text_so_far r) = Inr nt"
    and coll: "collect (token_info_at vocab u s lgs nt) (top_indices asort m k) = Inr (tokens r)"
    and "position r = pos"
    by (elim exE conjE)
  from nt assms(2) have empty: "nt = []"
    by (simp add: next_token_at_def)
  from t obtain j where j: "j < length (tokens r)" and tj: "tokens r ! j = t"
    by (meson in_set_conv_nth)
  from collect_Inr [OF coll] j have
    "token_info_at vocab u s lgs nt (top_indices asort m k ! j) = Inr (tokens r ! j)"
    by simp
  from token_info_at_Inr [OF this] show "is_chosen t = (token t = [])"
    by (simp add: tj empty)
qed

text \<open>
  Claim C5. At the last recorded position line 266 sets \<^verbatim>\<open>next_token\<close> to the empty
  string and line 277 compares every token string with it. One call on a tracker whose
  tokenizer decodes index 0 to the empty string, then \<^verbatim>\<open>get_top_tokens(k=2)\<close>: the
  entry of index 0 at position 0, the last recorded one, is marked as chosen, in
  whichever order \<^verbatim>\<open>np.argsort\<close> leaves the two tied indices.
\<close>

theorem last_position_empty_token_chosen:
  "map (\<lambda>r. (position r, map (\<lambda>t. (token t, is_chosen t)) (tokens r)))
     (projr (fst (get_top_tokens (\<lambda>xs. map (\<lambda>_. 1 / 2) xs) stable_argsort
      (snd (process_logits
        ((init None)\<lparr>tokenizer := Some (\<lambda>ids. Inr (map (\<lambda>i. if i = 0 then [] else ''b'') ids))\<rparr>)
        [[0]] [[0::real, 0]])) 2 AllPositions True)))
   = [(0, [(''b'', False), ([], True)])] \<and>
   map (\<lambda>r. (position r, map (\<lambda>t. (token t, is_chosen t)) (tokens r)))
     (projr (fst (get_top_tokens (\<lambda>xs. map (\<lambda>_. 1 / 2) xs) reverse_stable_argsort
      (snd (process_logits
        ((init None)\<lparr>tokenizer := Some (\<lambda>ids. Inr (map (\<lambda>i. if i = 0 then [] else ''b'') ids))\<rparr>)
        [[0]] [[0::real, 0]])) 2 AllPositions True)))
   = [(0, [([], True), (''b'', False)])]"
  by (simp add: eval_defs reverse_stable_argsort_def)

subsection \<open>Ranking of the top tokens\<close>

lemma is_argsort_distinct: "is_argsort asort \<Longrightarrow> distinct (asort xs)"
  by (simp add: is_argsort_def)

lemma is_argsort_set: "is_argsort asort \<Longrightarrow> set (asort xs) = {..<length xs}"
  by (simp add: is_argsort_def)

lemma is_argsort_sorted:
  "is_argsort asort \<Longrightarrow> sorted_wrt (\<lambda>i j. xs ! i \<le> xs ! j) (asort xs)"
  by (simp add: is_argsort_def sorted_map)

lemma is_argsort_length:
  assumes "is_argsort asort"
  shows "length (asort xs) = length xs"
proof -
  have "length (asort xs) = card (set (asort xs))"
    using is_argsort_distinct [OF assms] by (simp add: distinct_card)
  then show ?thesis by (simp add: is_argsort_set [OF assms])
qed

lemma stable_argsort_is_argsort: "is_argsort stable_argsort"
  by (auto simp: is_argsort_def stable_argsort_def)

lemma sorted_wrt_split_dominates:
  assumes "sorted_wrt P ys" and "x \<in> set (take a ys)" and "y \<in> set (drop a ys)"
  shows "P x y"
proof -
  have "sorted_wrt P (take a ys @ drop a ys)" using assms(1) by simp
  then show ?thesis using assms(2,3) unfolding sorted_wrt_append by blast
qed

lemma top_indices_eq:
  assumes "is_argsort asort" and "1 \<le> k"
  shows "top_indices asort m k
           = rev (drop (length m - nat (min k (int (length m)))) (asort m))"
proof (cases "m = []")
  case True
  with is_argsort_length [OF assms(1), of m] show ?thesis
    by (simp add: top_indices_def py_slice_from_def)
next
  case False
  then have "0 < length m" by simp
  with assms(2) have pos: "0 < min k (int (length m))" by simp
  have "nat (int (length m) - min k (int (length m)))
          = length m - nat (min k (int (length m)))"
    using pos by (simp add: nat_diff_distrib')
  with pos show ?thesis
    by (simp add: top_indices_def py_slice_from_def Let_def is_argsort_length [OF assms(1)])
qed

lemma length_top_indices:
  assumes "is_argsort asort" and "1 \<le> k"
  shows "length (top_indices asort m k) = nat (min k (int (length m)))"
proof -
  have "nat (min k (int (length m))) \<le> length m" by simp
  then show ?thesis
    unfolding top_indices_eq [OF assms] by (simp add: is_argsort_length [OF assms(1)])
qed

lemma top_indices_ranked:
  assumes "is_argsort asort" and "1 \<le> k"
  shows "sorted_wrt (\<lambda>i j. m ! j \<le> m ! i) (top_indices asort m k)"
  unfolding top_indices_eq [OF assms]
  by (simp add: sorted_wrt_rev sorted_wrt_drop is_argsort_sorted [OF assms(1)])

lemma top_indices_distinct:
  assumes "is_argsort asort" and "1 \<le> k"
  shows "distinct (top_indices asort m k) \<and> set (top_indices asort m k) \<subseteq> {..<length m}"
proof -
  have "set (drop a (asort m)) \<subseteq> {..<length m}" for a
    using set_drop_subset [of a "asort m"] by (simp add: is_argsort_set [OF assms(1)])
  then show ?thesis
    unfolding top_indices_eq [OF assms] by (simp add: is_argsort_distinct [OF assms(1)])
qed

lemma top_indices_dominate:
  assumes "is_argsort asort" and "1 \<le> k" and "i < length m"
    and "i \<notin> set (top_indices asort m k)" and "j \<in> set (top_indices asort m k)"
  shows "m ! i \<le> m ! j"
proof -
  let ?a = "length m - nat (min k (int (length m)))"
  from assms(4,5) have ni: "i \<notin> set (drop ?a (asort m))"
    and j: "j \<in> set (drop ?a (asort m))"
    unfolding top_indices_eq [OF assms(1,2)] by simp_all
  from assms(3) have "i \<in> set (asort m)" by (simp add: is_argsort_set [OF assms(1)])
  then have "i \<in> set (take ?a (asort m) @ drop ?a (asort m))" by simp
  with ni have "i \<in> set (take ?a (asort m))" by (simp del: append_take_drop_id)
  from sorted_wrt_split_dominates [OF is_argsort_sorted [OF assms(1)] this j]
  show ?thesis .
qed

lemma length_top_indices_zero:
  "is_argsort asort \<Longrightarrow> length (top_indices asort m 0) = length m"
  by (simp add: top_indices_def py_slice_from_def is_argsort_length)

lemma np_maximum_same_length:
  "length u = length s \<Longrightarrow> np_maximum u s = Inr (map2 max u s)"
  by (simp add: np_maximum_def)

lemma reverse_stable_argsort_is_argsort: "is_argsort reverse_stable_argsort"
  by (auto simp: is_argsort_def reverse_stable_argsort_def)

text \<open>
  Two functions that meet the contract of \<^verbatim>\<open>np.argsort\<close> rank tied indices in opposite
  orders, so the contract fixes no order among ties.
\<close>

lemma tie_order_depends_on_argsort:
  "top_indices stable_argsort [2, 2, 0, 0 :: int] 4 = [1, 0, 3, 2] \<and>
   top_indices reverse_stable_argsort [2, 2, 0, 0 :: int] 4 = [0, 1, 2, 3]"
  by (simp add: top_indices_def py_slice_from_def stable_argsort_def
        reverse_stable_argsort_def upt_rec)

lemma set_insert_descending: "set (insert_descending xs i js) = insert i (set js)"
  by (induction js) auto

lemma insert_descending_sorted:
  assumes "sorted_wrt (\<lambda>a b. xs ! b < xs ! a \<or> (xs ! a = xs ! b \<and> a < b)) js"
    and "\<forall>j \<in> set js. j < i"
  shows "sorted_wrt (\<lambda>a b. xs ! b < xs ! a \<or> (xs ! a = xs ! b \<and> a < b))
           (insert_descending xs i js)"
  using assms
proof (induction js)
  case Nil
  then show ?case by simp
next
  case (Cons j js)
  show ?case
  proof (cases "xs ! j < xs ! i")
    case True
    have "xs ! z < xs ! i" if "z \<in> set (j # js)" for z
    proof (cases "z = j")
      case True
      with \<open>xs ! j < xs ! i\<close> show ?thesis by simp
    next
      case False
      with that Cons.prems(1) have "xs ! z < xs ! j \<or> xs ! j = xs ! z" by auto
      with \<open>xs ! j < xs ! i\<close> show ?thesis by auto
    qed
    with True Cons.prems(1) show ?thesis by simp
  next
    case False
    from Cons.prems(2) have ji: "j < i" by simp
    from False ji have "xs ! i < xs ! j \<or> (xs ! j = xs ! i \<and> j < i)"
      by (auto simp: not_less le_less)
    moreover from Cons have
      "sorted_wrt (\<lambda>a b. xs ! b < xs ! a \<or> (xs ! a = xs ! b \<and> a < b))
         (insert_descending xs i js)"
      by simp
    ultimately show ?thesis
      using False Cons.prems(1) by (simp add: set_insert_descending)
  qed
qed

lemma foldl_insert_descending:
  "sorted_wrt (\<lambda>a b. xs ! b < xs ! a \<or> (xs ! a = xs ! b \<and> a < b))
     (foldl (\<lambda>acc i. insert_descending xs i acc) [] [0..<n]) \<and>
   set (foldl (\<lambda>acc i. insert_descending xs i acc) [] [0..<n]) = {..<n}"
proof (induction n)
  case 0
  then show ?case by simp
next
  case (Suc n)
  then have "sorted_wrt (\<lambda>a b. xs ! b < xs ! a \<or> (xs ! a = xs ! b \<and> a < b))
       (insert_descending xs n (foldl (\<lambda>acc i. insert_descending xs i acc) [] [0..<n]))"
    by (intro insert_descending_sorted) simp_all
  with Suc show ?case
    by (simp add: set_insert_descending lessThan_Suc)
qed

lemma spec_stable_descending_sorted:
  "sorted_wrt (\<lambda>i j. xs ! j < xs ! i \<or> (xs ! i = xs ! j \<and> i < j))
     (spec_stable_descending xs)"
  unfolding spec_stable_descending_def using foldl_insert_descending [of xs "length xs"]
  by blast

text \<open>
  Claim C4, as stated, fails twice on a tracker with one recorded vector of two equal
  scores. With \<open>k = 0\<close> the slice \<^verbatim>\<open>[-0:]\<close> of line 260 keeps every index, so two
  entries are returned where \<open>min(k, vocabulary_size)\<close> is 0. With \<open>k = 2\<close> and an
  argsort that leaves the two equal values in index order, the reversal of line 260
  brings the tied tokens out with index 1 first, where a stable descending sort puts
  index 0 first.
\<close>

theorem top_tokens_zero_k_and_ties:
  "map (\<lambda>r. map token (tokens r))
     (projr (fst (get_top_tokens (\<lambda>xs. map (\<lambda>_. 1 / 2) xs) stable_argsort
      (snd (process_logits
        ((init None)\<lparr>tokenizer := Some (\<lambda>ids. Inr (map (\<lambda>i. if i = 0 then ''a'' else ''b'') ids))\<rparr>)
        [[0]] [[0::real, 0]])) 0 AllPositions True)))
     = [[''b'', ''a'']] \<and>
   min (0::int) (int (length [0::real, 0])) = 0 \<and>
   stable_argsort [1 / 2, 1 / 2 :: real] = [0, 1] \<and>
   map (\<lambda>r. map token (tokens r))
     (projr (fst (get_top_tokens (\<lambda>xs. map (\<lambda>_. 1 / 2) xs) stable_argsort
      (snd (process_logits
        ((init None)\<lparr>tokenizer := Some (\<lambda>ids. Inr (map (\<lambda>i. if i = 0 then ''a'' else ''b'') ids))\<rparr>)
        [[0]] [[0::real, 0]])) 2 AllPositions True)))
     = [[''b'', ''a'']] \<and>
   map (\<lambda>i. [''a'', ''b''] ! i) (take 2 (spec_stable_descending [1 / 2, 1 / 2 :: real]))
     = [''a'', ''b'']"
  by (simp add: eval_defs spec_stable_descending_def)

text \<open>
  Claim C4, amended. Let \<^verbatim>\<open>np.argsort\<close> be any function that meets its contract, and
  \<open>k \<ge> 1\<close>. For every report that \<^verbatim>\<open>get_top_tokens\<close> returns, with \<open>u\<close> and \<open>s\<close>
  the unstructured and the structured probability column of the report's position and
  \<open>m\<close> their elementwise maximum (\<open>map2 max u s\<close> when the columns are equally long):
  the report has exactly \<open>min(k, length m)\<close> entries; entry \<open>j\<close> is the entry of the
  index \<open>top_indices argsort m k ! j\<close> and the larger of its two probabilities is the
  value of \<open>m\<close> there; these indices are distinct and in descending order of \<open>m\<close>, so the
  entries are in descending order of the larger of their two probabilities; and no index
  left out has a larger value than an index kept. Nothing is said about the order of
  entries of equal value.
\<close>

theorem top_tokens_ranked:
  assumes "is_argsort asort"
    and "1 \<le> k"
    and "get_top_tokens sm asort self k positions incl = (Inr rs, s1)"
    and "r \<in> set rs"
  shows "\<exists>probs vocab u s m.
           get_probabilities sm self = Inr probs \<and>
           fst (get_vocab_mapping self) = Inr vocab \<and>
           py_index (unstructured probs) (position r) = Inr u \<and>
           py_index (structured probs) (position r) = Inr s \<and>
           np_maximum u s = Inr m \<and>
           (length u = length s \<longrightarrow> m = map2 max u s) \<and>
           length (tokens r) = nat (min k (int (length m))) \<and>
           length (top_indices asort m k) = length (tokens r) \<and>
           (\<forall>j < length (tokens r).
              token (tokens r ! j) = vocab ! (top_indices asort m k ! j) \<and>
              unstructured_prob (tokens r ! j) = u ! (top_indices asort m k ! j) \<and>
              structured_prob (tokens r ! j) = s ! (top_indices asort m k ! j) \<and>
              max (unstructured_prob (tokens r ! j)) (structured_prob (tokens r ! j))
                = m ! (top_indices asort m k ! j)) \<and>
           sorted_wrt (\<lambda>i j. m ! j \<le> m ! i) (top_indices asort m k) \<and>
           sorted_wrt (\<lambda>a b. max (unstructured_prob b) (structured_prob b)
                             \<le> max (unstructured_prob a) (structured_prob a)) (tokens r) \<and>
           distinct (top_indices asort m k) \<and>
           (\<forall>i < length m. i \<notin> set (top_indices asort m k) \<longrightarrow>
              (\<forall>j \<in> set (top_indices asort m k). m ! i \<le> m ! j))"
proof -
  from get_top_tokens_Inr [OF assms(3)] obtain probs logits vocab ps where
    probs: "get_probabilities sm self = Inr probs"
    and vocab: "get_vocab_mapping self = (Inr vocab, s1)"
    and reps: "reports asort s1 probs logits vocab k ps = Inr rs"
    by blast
  from reports_mem [OF reps assms(4)] obtain pos where
    "report_at asort s1 probs logits vocab k pos = Inr r" by blast
  from report_at_Inr [OF this] obtain u s lgs m nt where
    u: "py_index (unstructured probs) (position r) = Inr u"
    and s: "py_index (structured probs) (position r) = Inr s"
    and m: "np_maximum u s = Inr m"
    and coll: "collect (token_info_at vocab u s lgs nt) (top_indices asort m k) = Inr (tokens r)"
    by auto
  let ?idx = "top_indices asort m k"
  have link: "length u = length s \<longrightarrow> m = map2 max u s"
    using m by (auto simp: np_maximum_same_length)
  from collect_Inr [OF coll] have
    len: "length (tokens r) = length ?idx"
    and each: "\<forall>j < length ?idx. token_info_at vocab u s lgs nt (?idx ! j) = Inr (tokens r ! j)"
    by simp_all
  have entry: "token (tokens r ! j) = vocab ! (?idx ! j) \<and>
      unstructured_prob (tokens r ! j) = u ! (?idx ! j) \<and>
      structured_prob (tokens r ! j) = s ! (?idx ! j) \<and>
      max (unstructured_prob (tokens r ! j)) (structured_prob (tokens r ! j)) = m ! (?idx ! j)"
    if j: "j < length (tokens r)" for j
  proof -
    from each j len have "token_info_at vocab u s lgs nt (?idx ! j) = Inr (tokens r ! j)"
      by simp
    from token_info_at_Inr [OF this] np_maximum_nth [OF m, of "?idx ! j"]
    show ?thesis by simp
  qed
  then have entries: "\<forall>j < length (tokens r).
      token (tokens r ! j) = vocab ! (?idx ! j) \<and>
      unstructured_prob (tokens r ! j) = u ! (?idx ! j) \<and>
      structured_prob (tokens r ! j) = s ! (?idx ! j) \<and>
      max (unstructured_prob (tokens r ! j)) (structured_prob (tokens r ! j)) = m ! (?idx ! j)"
    by blast
  have ranked: "sorted_wrt (\<lambda>i j. m ! j \<le> m ! i) ?idx"
    by (rule top_indices_ranked [OF assms(1,2)])
  have desc: "sorted_wrt (\<lambda>a b. max (unstructured_prob b) (structured_prob b)
                             \<le> max (unstructured_prob a) (structured_prob a)) (tokens r)"
    unfolding sorted_wrt_iff_nth_less
  proof (intro allI impI)
    fix a b
    assume ab: "a < b" and b: "b < length (tokens r)"
    then have a: "a < length (tokens r)" by simp
    from ranked ab b len have le: "m ! (?idx ! b) \<le> m ! (?idx ! a)"
      unfolding sorted_wrt_iff_nth_less by simp
    have ea: "max (unstructured_prob (tokens r ! a)) (structured_prob (tokens r ! a))
                = m ! (?idx ! a)"
      using entry [OF a] by blast
    have eb: "max (unstructured_prob (tokens r ! b)) (structured_prob (tokens r ! b))
                = m ! (?idx ! b)"
      using entry [OF b] by blast
    show "max (unstructured_prob (tokens r ! b)) (structured_prob (tokens r ! b))
            \<le> max (unstructured_prob (tokens r ! a)) (structured_prob (tokens r ! a))"
      unfolding ea eb by (rule le)
  qed
  have dom: "\<forall>i < length m. i \<notin> set ?idx \<longrightarrow> (\<forall>j \<in> set ?idx. m ! i \<le> m ! j)"
    using top_indices_dominate [OF assms(1,2)] by blast
  have vocab': "fst (get_vocab_mapping self) = Inr vocab"
    by (simp add: vocab)
  have len1: "length (tokens r) = nat (min k (int (length m)))"
    using len length_top_indices [OF assms(1,2), of m] by simp
  have len2: "length ?idx = length (tokens r)"
    using len by simp
  have dist: "distinct ?idx"
    using top_indices_distinct [OF assms(1,2), of m] by simp
  show ?thesis
    apply (rule exI [of _ probs], rule exI [of _ vocab], rule exI [of _ u],
        rule exI [of _ s], rule exI [of _ m])
    by (intro conjI) (rule probs vocab' u s m link len1 len2 entries ranked desc dist dom)+
qed

theorem top_tokens_ranked_witness:
  "\<exists>r s1.
     get_top_tokens (\<lambda>xs. map (\<lambda>x. (x + 2) / 15) xs) stable_argsort
       (snd (process_logits
         ((init None)\<lparr>tokenizer := Some (\<lambda>ids. Inr (map
             (\<lambda>i. if i = 0 then ''a'' else if i = 4 then ''e'' else ''x'') ids))\<rparr>)
         [[0]] [[2::real, -1, 1, 0, 3]])) 2 AllPositions False = (Inr [r], s1) \<and>
     map (\<lambda>t. (token t, unstructured_prob t)) (tokens r) = [(''e'', 1 / 3), (''a'', 4 / 15)] \<and>
     sorted_wrt (\<lambda>a b. max (unstructured_prob b) (structured_prob b)
                       \<le> max (unstructured_prob a) (structured_prob a)) (tokens r)"
proof -
  let ?tok = "\<lambda>ids. Inr (map
             (\<lambda>i. if i = 0 then ''a'' else if i = (4::int) then ''e'' else ''x'') ids)"
  let ?r = "\<lparr>position = 0, text_so_far = [],
             tokens = [\<lparr>token = ''e'', unstructured_prob = 1 / 3,
                         structured_prob = 1 / 3, is_chosen = False,
                         unstructured_logit = None, structured_logit = None\<rparr>,
                       \<lparr>token = ''a'', unstructured_prob = 4 / 15,
                         structured_prob = 4 / 15, is_chosen = False,
                         unstructured_logit = None, structured_logit = None\<rparr>]\<rparr> :: real report"
  let ?s1 = "\<lparr>processor = None, unstructured_logits = [[2, - 1, 1, 0, 3]],
              structured_logits = [[2, - 1, 1, 0, 3]],
              vocab_tokens = Some [''a'', ''x'', ''x'', ''x'', ''e''],
              chosen_tokens = [], started = True, tokenizer = Some ?tok\<rparr> :: real tracker"
  have run: "get_top_tokens (\<lambda>xs. map (\<lambda>x. (x + 2) / 15) xs) stable_argsort
       (snd (process_logits ((init None)\<lparr>tokenizer := Some ?tok\<rparr>)
         [[0]] [[2::real, -1, 1, 0, 3]])) 2 AllPositions False = (Inr [?r], ?s1)"
    by (simp add: eval_defs)
  have k: "(1::int) \<le> 2" by simp
  have mem: "?r \<in> set [?r]" by simp
  from top_tokens_ranked [OF stable_argsort_is_argsort k run mem]
  have "sorted_wrt (\<lambda>a b. max (unstructured_prob b) (structured_prob b)
                       \<le> max (unstructured_prob a) (structured_prob a)) (tokens ?r)"
    by blast
  with run show ?thesis
    by (intro exI [of _ ?r] exI [of _ ?s1]) simp
qed

subsection \<open>Rows of the tabular export\<close>

lemma threshold_indices_eq:
  assumes "is_argsort asort"
  shows "threshold_indices asort m mv =
     (let valid = filter (\<lambda>i. m ! i \<ge> mv) [0..<length m]
      in map (\<lambda>j. valid ! j)
           (drop (length valid - 10) (asort (map (\<lambda>i. m ! i) valid))))"
proof -
  let ?valid = "filter (\<lambda>i. m ! i \<ge> mv) [0..<length m]"
  have "nat (int (length ?valid) - 10) = length ?valid - 10" by simp
  moreover have "asort [] = []"
    using is_argsort_length [OF assms, of "[]"] by simp
  ultimately show ?thesis
    by (simp add: threshold_indices_def py_slice_from_def Let_def
          is_argsort_length [OF assms])
qed

lemma threshold_indices_length:
  assumes "is_argsort asort"
  shows "length (threshold_indices asort m mv)
     = min 10 (length (filter (\<lambda>i. m ! i \<ge> mv) [0..<length m]))"
  unfolding threshold_indices_eq [OF assms]
  by (simp add: Let_def is_argsort_length [OF assms])

lemma threshold_indices_subset:
  assumes "is_argsort asort"
  shows "set (threshold_indices asort m mv) \<subseteq> {i. i < length m \<and> mv \<le> m ! i}"
proof -
  let ?valid = "filter (\<lambda>i. m ! i \<ge> mv) [0..<length m]"
  let ?vv = "map (\<lambda>i. m ! i) ?valid"
  have "set (drop a (asort ?vv)) \<subseteq> {..<length ?valid}" for a
    using set_drop_subset [of a "asort ?vv"] by (simp add: is_argsort_set [OF assms])
  then have "\<forall>b \<in> set (drop a (asort ?vv)). ?valid ! b \<in> set ?valid" for a
    by (meson lessThan_iff nth_mem subsetD)
  then have "set (threshold_indices asort m mv) \<subseteq> set ?valid"
    unfolding threshold_indices_eq [OF assms] Let_def by (simp add: image_subset_iff)
  then show ?thesis by auto
qed

lemma threshold_indices_distinct:
  assumes "is_argsort asort"
  shows "distinct (threshold_indices asort m mv)"
proof -
  let ?valid = "filter (\<lambda>i. m ! i \<ge> mv) [0..<length m]"
  let ?vv = "map (\<lambda>i. m ! i) ?valid"
  have dv: "distinct ?valid" by simp
  have "set (drop a (asort ?vv)) \<subseteq> {..<length ?valid}" for a
    using set_drop_subset [of a "asort ?vv"] by (simp add: is_argsort_set [OF assms])
  then have "inj_on (\<lambda>j. ?valid ! j) (set (drop a (asort ?vv)))" for a
    using dv by (auto simp: inj_on_def subset_iff nth_eq_iff_index_eq)
  then show ?thesis
    unfolding threshold_indices_eq [OF assms] Let_def
    by (simp add: distinct_map distinct_drop is_argsort_distinct [OF assms])
qed

lemma threshold_indices_dominate:
  assumes "is_argsort asort"
    and "i < length m" and "mv \<le> m ! i" and "i \<notin> set (threshold_indices asort m mv)"
    and "j \<in> set (threshold_indices asort m mv)"
  shows "m ! i \<le> m ! j"
proof -
  let ?valid = "filter (\<lambda>i. m ! i \<ge> mv) [0..<length m]"
  let ?vv = "map (\<lambda>i. m ! i) ?valid"
  let ?a = "length ?valid - 10"
  from assms(2,3) have "i \<in> set ?valid" by simp
  then obtain a where a: "a < length ?valid" and ia: "?valid ! a = i"
    by (meson in_set_conv_nth)
  from assms(5) obtain b where b: "b \<in> set (drop ?a (asort ?vv))" and jb: "j = ?valid ! b"
    unfolding threshold_indices_eq [OF assms(1)] Let_def by auto
  from assms(4) ia have "a \<notin> set (drop ?a (asort ?vv))"
    unfolding threshold_indices_eq [OF assms(1)] Let_def by auto
  moreover from a have "a \<in> set (take ?a (asort ?vv) @ drop ?a (asort ?vv))"
    by (simp add: is_argsort_set [OF assms(1)])
  ultimately have "a \<in> set (take ?a (asort ?vv))" by (simp del: append_take_drop_id)
  from sorted_wrt_split_dominates [OF is_argsort_sorted [OF assms(1)] this b]
  have le: "?vv ! a \<le> ?vv ! b" .
  from b have "b \<in> set (asort ?vv)" by (meson in_set_dropD)
  then have "b < length ?valid" by (simp add: is_argsort_set [OF assms(1)])
  with a le show ?thesis by (simp add: ia jb [symmetric])
qed

lemma df_row_at_Inr:
  assumes "df_row_at vocab u s ct pos idx = Inr r"
  shows "idx < length vocab \<and> idx < length u \<and> idx < length s \<and>
         row_position r = pos \<and> row_token r = vocab ! idx \<and>
         natural r = u ! idx \<and> constrained r = s ! idx"
proof -
  from assms obtain tk uv sv where
    a: "py_index vocab (int idx) = Inr tk" and b: "py_index u (int idx) = Inr uv"
    and c: "py_index s (int idx) = Inr sv"
    by (auto simp: df_row_at_def split: sum.splits)
  from assms a b c have "row_position r = pos \<and> row_token r = tk \<and>
      natural r = uv \<and> constrained r = sv"
    by (auto simp: df_row_at_def)
  with a b c show ?thesis by (simp add: py_index_nat)
qed

lemma df_rows_at_Inr:
  assumes "df_rows_at asort self vals min_value vocab pos = Inr rows"
  shows "\<exists>idxs.
           pos < length (unstructured vals) \<and> pos < length (structured vals) \<and>
           valid_indices_at asort vocab (unstructured vals ! pos) (structured vals ! pos) min_value
             = Inr idxs \<and>
           length rows = length idxs \<and>
           (\<forall>j < length idxs.
              idxs ! j < length vocab \<and>
              idxs ! j < length (unstructured vals ! pos) \<and>
              idxs ! j < length (structured vals ! pos) \<and>
              row_position (rows ! j) = pos \<and>
              row_token (rows ! j) = vocab ! (idxs ! j) \<and>
              natural (rows ! j) = unstructured vals ! pos ! (idxs ! j) \<and>
              constrained (rows ! j) = structured vals ! pos ! (idxs ! j))"
proof -
  from assms obtain u s ct idxs where
    u: "py_index (unstructured vals) (int pos) = Inr u"
    and s: "py_index (structured vals) (int pos) = Inr s"
    and v: "valid_indices_at asort vocab u s min_value = Inr idxs"
    and c: "collect (df_row_at vocab u s ct pos) idxs = Inr rows"
    by (auto simp: df_rows_at_def split: sum.splits)
  from u s have pu: "pos < length (unstructured vals)" and ue: "u = unstructured vals ! pos"
    and ps: "pos < length (structured vals)" and se: "s = structured vals ! pos"
    by (simp_all add: py_index_nat)
  from collect_Inr [OF c] have
    len: "length rows = length idxs"
    and each: "\<forall>j < length idxs. df_row_at vocab u s ct pos (idxs ! j) = Inr (rows ! j)"
    by simp_all
  have rowfacts: "\<forall>j < length idxs.
              idxs ! j < length vocab \<and>
              idxs ! j < length (unstructured vals ! pos) \<and>
              idxs ! j < length (structured vals ! pos) \<and>
              row_position (rows ! j) = pos \<and>
              row_token (rows ! j) = vocab ! (idxs ! j) \<and>
              natural (rows ! j) = unstructured vals ! pos ! (idxs ! j) \<and>
              constrained (rows ! j) = structured vals ! pos ! (idxs ! j)"
  proof (intro allI impI)
    fix j assume "j < length idxs"
    with each have "df_row_at vocab u s ct pos (idxs ! j) = Inr (rows ! j)" by simp
    from df_row_at_Inr [OF this] show "idxs ! j < length vocab \<and>
              idxs ! j < length (unstructured vals ! pos) \<and>
              idxs ! j < length (structured vals ! pos) \<and>
              row_position (rows ! j) = pos \<and>
              row_token (rows ! j) = vocab ! (idxs ! j) \<and>
              natural (rows ! j) = unstructured vals ! pos ! (idxs ! j) \<and>
              constrained (rows ! j) = structured vals ! pos ! (idxs ! j)"
      by (simp add: ue se)
  qed
  from v have v': "valid_indices_at asort vocab (unstructured vals ! pos) (structured vals ! pos)
      min_value = Inr idxs"
    by (simp add: ue se)
  show ?thesis
    apply (rule exI [of _ idxs])
    by (intro conjI) (rule pu ps v' len rowfacts)+
qed

lemma to_dataframe_Inr:
  assumes "to_dataframe asort self vals min_value = (Inr rows, s1)"
  shows "\<exists>vocab rowss.
           get_vocab_mapping self = (Inr vocab, s1) \<and>
           collect (df_rows_at asort s1 vals min_value vocab) [0..<length (unstructured vals)]
             = Inr rowss \<and>
           rows = concat rowss"
proof -
  obtain v s2 where v: "get_vocab_mapping self = (v, s2)"
    by (cases "get_vocab_mapping self")
  from assms show ?thesis
    by (cases v) (auto simp: to_dataframe_def v split: sum.splits)
qed

lemma length_concat_const:
  "\<forall>xs \<in> set xss. length xs = n \<Longrightarrow> length (concat xss) = length xss * n"
  by (induction xss) auto

lemma valid_indices_at_None:
  "valid_indices_at asort vocab u s None = Inr idxs \<Longrightarrow> idxs = [0..<length vocab]"
  by (simp add: valid_indices_at_def)

lemma valid_indices_at_Some:
  "valid_indices_at asort vocab u s (Some mv) = Inr idxs \<Longrightarrow>
     \<exists>m. np_maximum u s = Inr m \<and> idxs = threshold_indices asort m mv"
  by (auto simp: valid_indices_at_def split: sum.splits)

text \<open>
  Claim C8. Let \<^verbatim>\<open>np.argsort\<close> be any function that meets its contract. When
  \<^verbatim>\<open>_to_dataframe\<close> returns, its rows are the rows of position 0, then of position 1,
  and so on, one block for each column of the unstructured matrix. Without a threshold
  every block has one row for each index of the vocabulary table, in index order, so the
  table has steps times vocabulary-size rows. With a threshold \<open>mv\<close>, let \<open>m\<close> be the
  elementwise maximum of the two columns of a position (\<open>map2 max\<close> of them when they are
  equally long): every row has the larger of its two values at least \<open>mv\<close>; the block
  has \<open>min(10, number of indices whose value in m reaches mv)\<close> rows, which are the rows
  of distinct indices whose value in \<open>m\<close> reaches \<open>mv\<close>; and no index that reaches
  \<open>mv\<close> and is left out has a larger value in \<open>m\<close> than an index kept.
\<close>

theorem dataframe_rows:
  assumes "is_argsort asort"
    and "to_dataframe asort self vals min_value = (Inr rows, s1)"
  shows "\<exists>vocab rowss.
     fst (get_vocab_mapping self) = Inr vocab \<and>
     rows = concat rowss \<and>
     length rowss = length (unstructured vals) \<and>
     (\<forall>p < length rowss. \<forall>r \<in> set (rowss ! p). row_position r = p) \<and>
     (min_value = None \<longrightarrow>
        length rows = length (unstructured vals) * length vocab \<and>
        (\<forall>p < length rowss.
           map (\<lambda>r. (row_token r, natural r, constrained r)) (rowss ! p)
             = map (\<lambda>i. (vocab ! i, unstructured vals ! p ! i, structured vals ! p ! i))
                 [0..<length vocab])) \<and>
     (\<forall>mv. min_value = Some mv \<longrightarrow>
        (\<forall>r \<in> set rows. mv \<le> max (natural r) (constrained r)) \<and>
        (\<forall>p < length rowss. \<exists>m idxs.
            np_maximum (unstructured vals ! p) (structured vals ! p) = Inr m \<and>
            (length (unstructured vals ! p) = length (structured vals ! p) \<longrightarrow>
               m = map2 max (unstructured vals ! p) (structured vals ! p)) \<and>
            length (rowss ! p)
              = min 10 (length (filter (\<lambda>i. mv \<le> m ! i) [0..<length m])) \<and>
            map (\<lambda>r. (row_token r, natural r, constrained r)) (rowss ! p)
              = map (\<lambda>i. (vocab ! i, unstructured vals ! p ! i, structured vals ! p ! i))
                  idxs \<and>
            distinct idxs \<and>
            (\<forall>i \<in> set idxs.
               i < length m \<and> mv \<le> m ! i \<and>
               m ! i = max (unstructured vals ! p ! i) (structured vals ! p ! i)) \<and>
            (\<forall>i < length m. mv \<le> m ! i \<and> i \<notin> set idxs \<longrightarrow>
               (\<forall>j \<in> set idxs. m ! i \<le> m ! j))))"
proof -
  let ?n = "length (unstructured vals)"
  let ?U = "\<lambda>p. unstructured vals ! p" and ?S = "\<lambda>p. structured vals ! p"
  from to_dataframe_Inr [OF assms(2)] obtain vocab rowss where
    vocab: "get_vocab_mapping self = (Inr vocab, s1)"
    and coll: "collect (df_rows_at asort s1 vals min_value vocab) [0..<?n] = Inr rowss"
    and rows: "rows = concat rowss"
    by blast
  let ?triple = "\<lambda>r. (row_token r, natural r, constrained r)"
  let ?built = "\<lambda>p i. (vocab ! i, ?U p ! i, ?S p ! i)"
  let ?rowfacts = "\<lambda>p idxs. \<forall>j < length idxs.
              idxs ! j < length vocab \<and>
              idxs ! j < length (?U p) \<and> idxs ! j < length (?S p) \<and>
              row_position (rowss ! p ! j) = p \<and>
              row_token (rowss ! p ! j) = vocab ! (idxs ! j) \<and>
              natural (rowss ! p ! j) = ?U p ! (idxs ! j) \<and>
              constrained (rowss ! p ! j) = ?S p ! (idxs ! j)"
  from collect_Inr [OF coll] have
    len: "length rowss = ?n"
    and each: "\<forall>p < ?n. df_rows_at asort s1 vals min_value vocab p = Inr (rowss ! p)"
    by simp_all
  have at: "\<exists>idxs.
           valid_indices_at asort vocab (?U p) (?S p) min_value = Inr idxs \<and>
           length (rowss ! p) = length idxs \<and> ?rowfacts p idxs"
    if "p < length rowss" for p
  proof -
    from that len each have "df_rows_at asort s1 vals min_value vocab p = Inr (rowss ! p)"
      by simp
    from df_rows_at_Inr [OF this] obtain idxs where
      "valid_indices_at asort vocab (?U p) (?S p) min_value = Inr idxs"
      "length (rowss ! p) = length idxs"
      "?rowfacts p idxs"
      by (elim exE conjE)
    then show ?thesis
      by (intro exI [of _ idxs]) simp
  qed
  have vocab': "fst (get_vocab_mapping self) = Inr vocab"
    by (simp add: vocab)
  have positions: "\<forall>p < length rowss. \<forall>r \<in> set (rowss ! p). row_position r = p"
  proof (intro allI impI ballI)
    fix p r assume p: "p < length rowss" and r: "r \<in> set (rowss ! p)"
    from at [OF p] obtain idxs where
      l: "length (rowss ! p) = length idxs" and full: "?rowfacts p idxs"
      by (elim exE conjE)
    from full have f: "\<forall>j < length idxs. row_position (rowss ! p ! j) = p"
      by simp
    from r obtain j where "j < length (rowss ! p)" "rowss ! p ! j = r"
      by (meson in_set_conv_nth)
    with l f show "row_position r = p" by auto
  qed
  have triples: "map ?triple (rowss ! p) = map (?built p) idxs"
    if l: "length (rowss ! p) = length idxs" and f: "?rowfacts p idxs"
    for p idxs
    using l f by (intro nth_equalityI) simp_all
  have dense: "length rows = ?n * length vocab \<and>
        (\<forall>p < length rowss. map ?triple (rowss ! p) = map (?built p) [0..<length vocab])"
    if none: "min_value = None"
  proof -
    have one: "length (rowss ! p) = length vocab \<and>
           map ?triple (rowss ! p) = map (?built p) [0..<length vocab]"
      if p: "p < length rowss" for p
    proof -
      from at [OF p] obtain idxs where
        v: "valid_indices_at asort vocab (?U p) (?S p) min_value = Inr idxs"
        and l: "length (rowss ! p) = length idxs"
        and full: "?rowfacts p idxs"
        by (elim exE conjE)
      from v none have idxs: "idxs = [0..<length vocab]"
        by (simp add: valid_indices_at_None)
      from triples [OF l full] l show ?thesis by (simp add: idxs)
    qed
    then have "\<forall>xs \<in> set rowss. length xs = length vocab"
      by (metis in_set_conv_nth)
    from length_concat_const [OF this] one show ?thesis
      by (simp add: rows len)
  qed
  have sparse: "(\<forall>r \<in> set rows. mv \<le> max (natural r) (constrained r)) \<and>
        (\<forall>p < length rowss. \<exists>m idxs.
            np_maximum (?U p) (?S p) = Inr m \<and>
            (length (?U p) = length (?S p) \<longrightarrow> m = map2 max (?U p) (?S p)) \<and>
            length (rowss ! p)
              = min 10 (length (filter (\<lambda>i. mv \<le> m ! i) [0..<length m])) \<and>
            map ?triple (rowss ! p) = map (?built p) idxs \<and>
            distinct idxs \<and>
            (\<forall>i \<in> set idxs.
               i < length m \<and> mv \<le> m ! i \<and> m ! i = max (?U p ! i) (?S p ! i)) \<and>
            (\<forall>i < length m. mv \<le> m ! i \<and> i \<notin> set idxs \<longrightarrow>
               (\<forall>j \<in> set idxs. m ! i \<le> m ! j)))"
    if some: "min_value = Some mv" for mv
  proof -
    let ?block = "\<lambda>p m idxs.
            np_maximum (?U p) (?S p) = Inr m \<and>
            (length (?U p) = length (?S p) \<longrightarrow> m = map2 max (?U p) (?S p)) \<and>
            length (rowss ! p)
              = min 10 (length (filter (\<lambda>i. mv \<le> m ! i) [0..<length m])) \<and>
            map ?triple (rowss ! p) = map (?built p) idxs \<and>
            distinct idxs \<and>
            (\<forall>i \<in> set idxs.
               i < length m \<and> mv \<le> m ! i \<and> m ! i = max (?U p ! i) (?S p ! i)) \<and>
            (\<forall>i < length m. mv \<le> m ! i \<and> i \<notin> set idxs \<longrightarrow>
               (\<forall>j \<in> set idxs. m ! i \<le> m ! j))"
    have one: "\<exists>m idxs. ?block p m idxs \<and>
            (\<forall>r \<in> set (rowss ! p). mv \<le> max (natural r) (constrained r))"
      if p: "p < length rowss" for p
    proof -
      from at [OF p] obtain idxs where
        v: "valid_indices_at asort vocab (?U p) (?S p) min_value = Inr idxs"
        and l: "length (rowss ! p) = length idxs"
        and full: "?rowfacts p idxs"
        by (elim exE conjE)
      from full have
        b: "\<forall>j < length idxs. idxs ! j < length (?U p) \<and> idxs ! j < length (?S p)"
        by simp
      from full have f: "\<forall>j < length idxs.
              natural (rowss ! p ! j) = ?U p ! (idxs ! j) \<and>
              constrained (rowss ! p ! j) = ?S p ! (idxs ! j)"
        by simp
      from v some obtain m where
        m: "np_maximum (?U p) (?S p) = Inr m" and idxs: "idxs = threshold_indices asort m mv"
        using valid_indices_at_Some by blast
      have c1: "length (?U p) = length (?S p) \<longrightarrow> m = map2 max (?U p) (?S p)"
        using m by (auto simp: np_maximum_same_length)
      have c2: "length (rowss ! p)
              = min 10 (length (filter (\<lambda>i. mv \<le> m ! i) [0..<length m]))"
        using l by (simp add: idxs threshold_indices_length [OF assms(1)])
      have c3: "map ?triple (rowss ! p) = map (?built p) idxs"
        by (rule triples [OF l full])
      have c4: "distinct idxs"
        unfolding idxs by (rule threshold_indices_distinct [OF assms(1)])
      have c5: "\<forall>i \<in> set idxs.
               i < length m \<and> mv \<le> m ! i \<and> m ! i = max (?U p ! i) (?S p ! i)"
      proof
        fix i assume i: "i \<in> set idxs"
        with threshold_indices_subset [OF assms(1), of m mv]
        have pass: "i < length m \<and> mv \<le> m ! i"
          unfolding idxs by blast
        from i obtain j where "j < length idxs" "idxs ! j = i"
          by (meson in_set_conv_nth)
        with b have "i < length (?U p)" "i < length (?S p)" by auto
        from np_maximum_nth [OF m this] pass
        show "i < length m \<and> mv \<le> m ! i \<and> m ! i = max (?U p ! i) (?S p ! i)"
          by simp
      qed
      have c6: "\<forall>i < length m. mv \<le> m ! i \<and> i \<notin> set idxs \<longrightarrow>
               (\<forall>j \<in> set idxs. m ! i \<le> m ! j)"
        unfolding idxs using threshold_indices_dominate [OF assms(1), of _ m mv] by blast
      have c7: "\<forall>r \<in> set (rowss ! p). mv \<le> max (natural r) (constrained r)"
      proof
        fix r assume "r \<in> set (rowss ! p)"
        then obtain j where j: "j < length (rowss ! p)" and r: "rowss ! p ! j = r"
          by (meson in_set_conv_nth)
        from j l have jl: "j < length idxs" by simp
        then have "idxs ! j \<in> set idxs" by simp
        with c5 have "mv \<le> max (?U p ! (idxs ! j)) (?S p ! (idxs ! j))"
          by metis
        moreover from f jl r have "natural r = ?U p ! (idxs ! j)"
          "constrained r = ?S p ! (idxs ! j)" by auto
        ultimately show "mv \<le> max (natural r) (constrained r)" by simp
      qed
      show ?thesis
        apply (rule exI [of _ m], rule exI [of _ idxs])
        by (intro conjI) (rule m c1 c2 c3 c4 c5 c6 c7)+
    qed
    have all: "\<forall>r \<in> set rows. mv \<le> max (natural r) (constrained r)"
    proof
      fix r assume "r \<in> set rows"
      then obtain xs where "xs \<in> set rowss" "r \<in> set xs"
        by (auto simp: rows)
      then obtain p where "p < length rowss" "rowss ! p = xs"
        by (meson in_set_conv_nth)
      with one [of p] \<open>r \<in> set xs\<close> show "mv \<le> max (natural r) (constrained r)"
        by blast
    qed
    from one have "\<forall>p < length rowss. \<exists>m idxs. ?block p m idxs"
      by blast
    with all show ?thesis by blast
  qed
  show ?thesis
    apply (rule exI [of _ vocab], rule exI [of _ rowss])
    using vocab' rows len positions dense sparse by blast
qed

theorem dataframe_rows_witness:
  "length (projr (fst (to_dataframe stable_argsort (snd (process_logits
           ((init None)\<lparr>tokenizer := Some (\<lambda>ids. Inr (map (\<lambda>i. ''t'') ids))\<rparr>)
           [[0]] [[5, 1, 12, 2, 3, 4, 6, 7, 8, 9, 10, 11 :: int]]))
        \<lparr>unstructured = [[5, 1, 12, 2, 3, 4, 6, 7, 8, 9, 10, 11]],
           structured = [[0, 20, 0, 0, 0, 0, 0, 0, 0, 0, 0, 0]]\<rparr> None))) = 12 \<and>
   map (\<lambda>r. (natural r, constrained r))
     (projr (fst (to_dataframe stable_argsort (snd (process_logits
           ((init None)\<lparr>tokenizer := Some (\<lambda>ids. Inr (map (\<lambda>i. ''t'') ids))\<rparr>)
           [[0]] [[5, 1, 12, 2, 3, 4, 6, 7, 8, 9, 10, 11 :: int]]))
        \<lparr>unstructured = [[5, 1, 12, 2, 3, 4, 6, 7, 8, 9, 10, 11]],
           structured = [[0, 20, 0, 0, 0, 0, 0, 0, 0, 0, 0, 0]]\<rparr> (Some 2))))
     = [(4, 0), (5, 0), (6, 0), (7, 0), (8, 0), (9, 0), (10, 0), (11, 0), (12, 0), (1, 20)] \<and>
   list_all (\<lambda>r. 2 \<le> max (natural r) (constrained r))
     (projr (fst (to_dataframe stable_argsort (snd (process_logits
           ((init None)\<lparr>tokenizer := Some (\<lambda>ids. Inr (map (\<lambda>i. ''t'') ids))\<rparr>)
           [[0]] [[5, 1, 12, 2, 3, 4, 6, 7, 8, 9, 10, 11 :: int]]))
        \<lparr>unstructured = [[5, 1, 12, 2, 3, 4, 6, 7, 8, 9, 10, 11]],
           structured = [[0, 20, 0, 0, 0, 0, 0, 0, 0, 0, 0, 0]]\<rparr> (Some 2))))"
proof -
  let ?T = "snd (process_logits
           ((init None)\<lparr>tokenizer := Some (\<lambda>ids. Inr (map (\<lambda>i. ''t'') ids))\<rparr>)
           [[0]] [[5, 1, 12, 2, 3, 4, 6, 7, 8, 9, 10, 11 :: int]])"
  let ?V = "\<lparr>unstructured = [[5, 1, 12, 2, 3, 4, 6, 7, 8, 9, 10, 11 :: int]],
           structured = [[0, 20, 0, 0, 0, 0, 0, 0, 0, 0, 0, 0]]\<rparr>"
  have dense_ok: "fst (to_dataframe stable_argsort ?T ?V None)
      = Inr (projr (fst (to_dataframe stable_argsort ?T ?V None)))"
    by (simp add: eval_defs)
  have sparse_ok: "fst (to_dataframe stable_argsort ?T ?V (Some 2))
      = Inr (projr (fst (to_dataframe stable_argsort ?T ?V (Some 2))))"
    by (simp add: eval_defs)
  have vocab: "fst (get_vocab_mapping ?T) = Inr (replicate 12 ''t'')"
    by (simp add: eval_defs numeral_eq_Suc)
  have dense_run: "to_dataframe stable_argsort ?T ?V None
      = (Inr (projr (fst (to_dataframe stable_argsort ?T ?V None))),
         snd (to_dataframe stable_argsort ?T ?V None))"
    using dense_ok by (metis prod.collapse)
  have sparse_run: "to_dataframe stable_argsort ?T ?V (Some 2)
      = (Inr (projr (fst (to_dataframe stable_argsort ?T ?V (Some 2)))),
         snd (to_dataframe stable_argsort ?T ?V (Some 2)))"
    using sparse_ok by (metis prod.collapse)
  from dataframe_rows [OF stable_argsort_is_argsort dense_run] vocab
  have c1: "length (projr (fst (to_dataframe stable_argsort ?T ?V None))) = 12"
    by auto
  from dataframe_rows [OF stable_argsort_is_argsort sparse_run]
  have c3: "list_all (\<lambda>r. 2 \<le> max (natural r) (constrained r))
     (projr (fst (to_dataframe stable_argsort ?T ?V (Some 2))))"
    unfolding list_all_iff by blast
  have c2: "map (\<lambda>r. (natural r, constrained r))
     (projr (fst (to_dataframe stable_argsort ?T ?V (Some 2))))
     = [(4, 0), (5, 0), (6, 0), (7, 0), (8, 0), (9, 0), (10, 0), (11, 0), (12, 0), (1, 20)]"
    by (simp add: eval_defs)
  from c1 c2 c3 show ?thesis by (intro conjI)
qed

end
